theory Spec2Isabelle
  imports Complex_Main "HOL-Library.Sublist" "HOL-Library.Multiset"
begin

section \<open>The NoLossTokenizer codec of midi-quantizers\<close>

text \<open>
  The theory embeds \<^verbatim>\<open>src/midi_tokenizers/no_loss_tokenizer.py\<close>. Tokens are Python
  strings and stay strings here; dictionaries are maps; a missing key, a bad index and
  a bad argument are values of \<open>error\<close>. Python floats (\<open>eps\<close>, note times) are modelled
  by exact reals: rounding is not modelled. Doubling and halving, which is all the ladder
  and the greedy loop do to a step, are exact in binary floating point as well. A
  \<^verbatim>\<open>while\<close> loop that may run forever is a \<open>partial_function\<close> into \<open>option\<close>, with
  \<open>None\<close> for the run that never returns.
\<close>

datatype error = KeyError | IndexError | ValueError

subsection \<open>Strings\<close>

text \<open>The decimal rendering of a non-negative integer, as an f-string prints it.\<close>

fun str_nat :: "nat \<Rightarrow> string" where
  "str_nat n = (if n < 10 then [''0123456789'' ! n]
                else str_nat (n div 10) @ [''0123456789'' ! (n mod 10)])"

declare str_nat.simps [simp del]

definition str_int :: "int \<Rightarrow> string" where
  "str_int i = (if i < 0 then ''-'' @ str_nat (nat (- i)) else str_nat (nat i))"

text \<open>The decimal digits.\<close>

definition is_digit :: "char \<Rightarrow> bool" where
  "is_digit ch = (ch \<in> set ''0123456789'')"

text \<open>Python's \<^verbatim>\<open>needle in token\<close> on strings is the contiguous-substring test.\<close>

definition contains :: "string \<Rightarrow> string \<Rightarrow> bool" where
  "contains needle token = sublist needle token"

text \<open>
  \<^verbatim>\<open>re.search(".T$", token) is not None\<close>: some character other than a newline, then
  \<open>T\<close>, then the end of the string or a single final newline.
\<close>

definition search_dot_T :: "string \<Rightarrow> bool" where
  "search_dot_T token =
     (let body = (if token \<noteq> [] \<and> last token = CHR 0x0A then butlast token else token)
      in (2 \<le> length token \<and> last token = CHR ''T'' \<and> last (butlast token) \<noteq> CHR 0x0A)
       \<or> (2 \<le> length body \<and> last body = CHR ''T'' \<and> last (butlast body) \<noteq> CHR 0x0A))"

subsection \<open>Exceptions\<close>

text \<open>A statement that raises ends the call: \<open>and_then\<close> passes the exception on.\<close>

definition and_then :: "error + 'a \<Rightarrow> ('a \<Rightarrow> error + 'b) \<Rightarrow> error + 'b" where
  "and_then m f = (case m of Inl e \<Rightarrow> Inl e | Inr x \<Rightarrow> f x)"

text \<open>\<^verbatim>\<open>d[k]\<close> on a dictionary raises KeyError on a missing key.\<close>

definition dict_get :: "('k \<rightharpoonup> 'v) \<Rightarrow> 'k \<Rightarrow> error + 'v" where
  "dict_get d k = (case d k of None \<Rightarrow> Inl KeyError | Some v \<Rightarrow> Inr v)"

text \<open>
  \<^verbatim>\<open>xs[i]\<close> on a list or an array: a negative index counts from the end, an index out of
  range raises IndexError. The result is the position read or written.
\<close>

definition index_of :: "'a list \<Rightarrow> int \<Rightarrow> error + nat" where
  "index_of xs i =
     (let n = int (length xs); j = (if i < 0 then n + i else i)
      in if 0 \<le> j \<and> j < n then Inr (nat j) else Inl IndexError)"


definition trunc :: "real \<Rightarrow> int" where
  "trunc x = (if 0 \<le> x then \<lfloor>x\<rfloor> else \<lceil>x\<rceil>)"

subsection \<open>The codec object\<close>

record codec =
  eps :: real
  n_velocity_bins :: int
  specials :: "string list"
  vocab :: "string list"
  token_to_velocity_bin :: "string \<rightharpoonup> int"
  velocity_bin_to_token :: "int \<rightharpoonup> string"
  token_to_pitch :: "string \<rightharpoonup> int"
  pitch_to_on_token :: "int \<rightharpoonup> string"
  pitch_to_off_token :: "int \<rightharpoonup> string"
  token_to_dt :: "string \<rightharpoonup> real"
  dt_to_token :: "real \<rightharpoonup> string"
  max_time_value :: real
  token_to_id :: "string \<rightharpoonup> nat"
  velocity_bin_edges :: "int list"
  bin_to_velocity :: "int list"
  name :: string

subsection \<open>The time-step ladder\<close>

type_synonym time_tables = "string list \<times> (string \<rightharpoonup> real) \<times> (real \<rightharpoonup> string)"

text \<open>The \<^verbatim>\<open>while dt < 1\<close> loop of \<^verbatim>\<open>_time_vocab\<close>; its state is \<open>dt_it\<close>, \<open>dt\<close> and the three tables.\<close>

definition time_token :: "int \<Rightarrow> string" where
  "time_token dt_it = str_int dt_it @ ''T''"

partial_function (option) time_vocab_loop :: "int \<Rightarrow> real \<Rightarrow> time_tables \<Rightarrow> time_tables option" where
  "time_vocab_loop dt_it dt tabs =
     (if dt < 1 then
        (case tabs of (tv, t2d, d2t) \<Rightarrow>
          time_vocab_loop (dt_it + 1) (dt * 2)
            (tv @ [time_token dt_it], t2d(time_token dt_it \<mapsto> dt), d2t(dt \<mapsto> time_token dt_it)))
      else Some tabs)"

declare time_vocab_loop.simps [code]

definition time_vocab :: "real \<Rightarrow> time_tables option" where
  "time_vocab e = time_vocab_loop 1 e ([], Map.empty, Map.empty)"

text \<open>
  The ladder of the specification: rung \<open>k\<close> lasts \<open>eps * 2 ^ (k - 1)\<close>. \<open>ladder e K tabs\<close>
  says that the three tables hold exactly the rungs \<open>1..K\<close>.
\<close>

definition rung :: "real \<Rightarrow> int \<Rightarrow> real" where
  "rung e k = e * 2 ^ nat (k - 1)"

definition ladder :: "real \<Rightarrow> int \<Rightarrow> time_tables \<Rightarrow> bool" where
  "ladder e K tabs =
     (case tabs of (tv, t2d, d2t) \<Rightarrow>
        tv = map time_token [1..K]
        \<and> (\<forall>s x. t2d s = Some x \<longleftrightarrow> (\<exists>k. 1 \<le> k \<and> k \<le> K \<and> s = time_token k \<and> x = rung e k))
        \<and> (\<forall>x s. d2t x = Some s \<longleftrightarrow> (\<exists>k. 1 \<le> k \<and> k \<le> K \<and> s = time_token k \<and> x = rung e k)))"

subsection \<open>The vocabulary\<close>

definition note_on_token :: "int \<Rightarrow> string" where
  "note_on_token p = ''NOTE_ON_'' @ str_int p"

definition note_off_token :: "int \<Rightarrow> string" where
  "note_off_token p = ''NOTE_OFF_'' @ str_int p"

definition velocity_token :: "int \<Rightarrow> string" where
  "velocity_token vel = ''VELOCITY_'' @ str_int vel"

text \<open>One round of the loop over \<^verbatim>\<open>range(21, 109)\<close>.\<close>

definition add_pitch :: "int \<Rightarrow> codec \<Rightarrow> codec" where
  "add_pitch p c =
     c\<lparr>vocab := vocab c @ [note_on_token p, note_off_token p],
       token_to_pitch := (token_to_pitch c)(note_on_token p \<mapsto> p, note_off_token p \<mapsto> p),
       pitch_to_on_token := (pitch_to_on_token c)(p \<mapsto> note_on_token p),
       pitch_to_off_token := (pitch_to_off_token c)(p \<mapsto> note_off_token p)\<rparr>"

text \<open>One round of the loop over \<^verbatim>\<open>range(self.n_velocity_bins)\<close>.\<close>

definition add_velocity :: "int \<Rightarrow> codec \<Rightarrow> codec" where
  "add_velocity vel c =
     c\<lparr>vocab := vocab c @ [velocity_token vel],
       token_to_velocity_bin := (token_to_velocity_bin c)(velocity_token vel \<mapsto> vel),
       velocity_bin_to_token := (velocity_bin_to_token c)(vel \<mapsto> velocity_token vel)\<rparr>"

text \<open>
  \<^verbatim>\<open>_build_vocab\<close>. \<open>None\<close> when \<^verbatim>\<open>_time_vocab\<close> never returns; \<^verbatim>\<open>time_vocab[-1]\<close> raises
  IndexError on an empty ladder.
\<close>

definition build_vocab :: "codec \<Rightarrow> (error + codec) option" where
  "build_vocab c0 =
     (let c1 = c0\<lparr>vocab := specials c0,
                   token_to_velocity_bin := Map.empty, velocity_bin_to_token := Map.empty,
                   token_to_pitch := Map.empty, pitch_to_on_token := Map.empty,
                   pitch_to_off_token := Map.empty,
                   token_to_dt := Map.empty, dt_to_token := Map.empty\<rparr>;
          c2 = fold add_pitch [21..108] c1;
          c3 = fold add_velocity [0..n_velocity_bins c2 - 1] c2
      in case time_vocab (eps c3) of
           None \<Rightarrow> None
         | Some (tv, t2d, d2t) \<Rightarrow>
             (let c4 = c3\<lparr>vocab := vocab c3 @ tv, token_to_dt := t2d, dt_to_token := d2t\<rparr>
              in if tv = [] then Some (Inl IndexError)
                 else Some (and_then (dict_get t2d (last tv))
                              (\<lambda>m. Inr (c4\<lparr>max_time_value := m\<rparr>)))))"

text \<open>\<^verbatim>\<open>{token: it for it, token in enumerate(self.vocab)}\<close>.\<close>

definition enumerate_ids :: "string list \<Rightarrow> (string \<rightharpoonup> nat)" where
  "enumerate_ids v = fold (\<lambda>(it, token) m. m(token \<mapsto> it)) (enumerate 0 v) Map.empty"

subsection \<open>Velocity bins\<close>

text \<open>
  \<^verbatim>\<open>np.linspace(0, 127, num=num, endpoint=True).astype(int)\<close>: \<open>num\<close> samples, the
  \<open>i\<close>-th at \<open>i * (127 / (num - 1))\<close> and the last set to 127, truncated. A negative
  \<open>num\<close> raises ValueError; a single sample is the start, 0.
\<close>

definition linspace_0_127 :: "int \<Rightarrow> error + int list" where
  "linspace_0_127 num =
     (if num < 0 then Inl ValueError
      else if num = 1 then Inr [0]
      else Inr (map (\<lambda>i. if i = num - 1 then 127
                          else trunc (real_of_int i * (127 / real_of_int (num - 1))))
                    [0..num - 1]))"

text \<open>\<^verbatim>\<open>_build_velocity_decoder\<close>: the truncated midpoint of each pair of neighbouring edges.\<close>

definition build_velocity_decoder :: "codec \<Rightarrow> codec" where
  "build_velocity_decoder c =
     c\<lparr>bin_to_velocity :=
         map (\<lambda>it. trunc (real_of_int (velocity_bin_edges c ! (it - 1) + velocity_bin_edges c ! it) / 2))
             [1..<length (velocity_bin_edges c)]\<rparr>"

subsection \<open>Construction\<close>

text \<open>
  \<^verbatim>\<open>NoLossTokenizer.__init__\<close>. An attribute that is not assigned yet is an empty table
  here. The base class's \<^verbatim>\<open>__init__\<close> is not part of the sources and is left out.
\<close>

definition NoLossTokenizer :: "real \<Rightarrow> int \<Rightarrow> (error + codec) option" where
  "NoLossTokenizer e n =
     (let c0 = \<lparr>eps = e, n_velocity_bins = n, specials = [''<CLS>''], vocab = [],
                token_to_velocity_bin = Map.empty, velocity_bin_to_token = Map.empty,
                token_to_pitch = Map.empty, pitch_to_on_token = Map.empty,
                pitch_to_off_token = Map.empty, token_to_dt = Map.empty,
                dt_to_token = Map.empty, max_time_value = 0, token_to_id = Map.empty,
                velocity_bin_edges = [], bin_to_velocity = [], name = []\<rparr>
      in case build_vocab c0 of
           None \<Rightarrow> None
         | Some (Inl err) \<Rightarrow> Some (Inl err)
         | Some (Inr c1) \<Rightarrow>
             (let c2 = c1\<lparr>token_to_id := enumerate_ids (vocab c1)\<rparr>
              in case linspace_0_127 n of
                   Inl err \<Rightarrow> Some (Inl err)
                 | Inr edges \<Rightarrow>
                     (let c3 = build_velocity_decoder (c2\<lparr>velocity_bin_edges := edges\<rparr>)
                      in Some (Inr (c3\<lparr>token_to_id := enumerate_ids (vocab c3),
                                       name := ''NoLossTokenizer''\<rparr>)))))"


text \<open>
  What a finished construction has built, for the proofs: \<open>built e n K c\<close> describes
  every table of \<open>c\<close>, with \<open>K\<close> the number of rungs.
\<close>

definition built :: "real \<Rightarrow> int \<Rightarrow> int \<Rightarrow> codec \<Rightarrow> bool" where
  "built e n K c =
     (eps c = e \<and> n_velocity_bins c = n
      \<and> pitch_to_on_token c = (\<lambda>p. if 21 \<le> p \<and> p \<le> 108 then Some (note_on_token p) else None)
      \<and> pitch_to_off_token c = (\<lambda>p. if 21 \<le> p \<and> p \<le> 108 then Some (note_off_token p) else None)
      \<and> velocity_bin_to_token c = (\<lambda>b. if 0 \<le> b \<and> b < n then Some (velocity_token b) else None)
      \<and> (\<forall>s p. token_to_pitch c s = Some p \<longleftrightarrow>
             21 \<le> p \<and> p \<le> 108 \<and> (s = note_on_token p \<or> s = note_off_token p))
      \<and> (\<forall>s b. token_to_velocity_bin c s = Some b \<longleftrightarrow> 0 \<le> b \<and> b < n \<and> s = velocity_token b)
      \<and> ladder e K (map time_token [1..K], token_to_dt c, dt_to_token c)
      \<and> 1 \<le> K \<and> rung e K < 1 \<and> 1 \<le> rung e (K + 1) \<and> max_time_value c = rung e K
      \<and> vocab c = ''<CLS>'' # concat (map (\<lambda>p. [note_on_token p, note_off_token p]) [21..108])
                    @ map velocity_token [0..n - 1] @ map time_token [1..K]
      \<and> linspace_0_127 n = Inr (velocity_bin_edges c)
      \<and> bin_to_velocity c =
            map (\<lambda>it. trunc (real_of_int (velocity_bin_edges c ! (it - 1) + velocity_bin_edges c ! it) / 2))
                [1..<length (velocity_bin_edges c)])"

subsection \<open>The greedy time-delta encoder\<close>

text \<open>
  The \<^verbatim>\<open>while True\<close> loop of \<^verbatim>\<open>tokenize_time_distance\<close>, with its state \<open>time_tokens\<close>,
  \<open>filling_dt\<close>, \<open>current_step\<close>. \<^verbatim>\<open>self.dt_to_token[current_step]\<close> raises KeyError when the
  step is no rung of the ladder.
\<close>

partial_function (option) time_distance_loop ::
  "codec \<Rightarrow> real \<Rightarrow> string list \<Rightarrow> real \<Rightarrow> real \<Rightarrow> (error + string list) option" where
  "time_distance_loop c dt time_tokens filling_dt current_step =
     (if \<bar>dt - filling_dt\<bar> < eps c then Some (Inr time_tokens)
      else if filling_dt + current_step - dt > eps c
        then time_distance_loop c dt time_tokens filling_dt (current_step / 2)
      else (case dt_to_token c current_step of
              None \<Rightarrow> Some (Inl KeyError)
            | Some tok \<Rightarrow>
                time_distance_loop c dt (time_tokens @ [tok]) (filling_dt + current_step) current_step))"

declare time_distance_loop.simps [code]

definition tokenize_time_distance :: "codec \<Rightarrow> real \<Rightarrow> (error + string list) option" where
  "tokenize_time_distance c dt = time_distance_loop c dt [] 0 (max_time_value c)"

subsection \<open>Notes, the frame and its events\<close>

text \<open>
  A row of the caller's note frame. The frame is the list of its rows together with the
  column \<^verbatim>\<open>velocity_bin\<close>, which exists only once \<^verbatim>\<open>quantize_frame\<close> has written it.
\<close>

record note_row =
  pitch :: int
  start :: real
  end_time :: real
  velocity :: int

record frame =
  rows :: "note_row list"
  velocity_bin :: "int list option"

text \<open>
  \<^verbatim>\<open>np.digitize(x, bins)\<close> on non-decreasing bins: the index \<open>i\<close> with
  \<open>bins[i-1] \<le> x < bins[i]\<close>, that is the number of edges that are at most \<open>x\<close>.
\<close>

definition digitize :: "int \<Rightarrow> int list \<Rightarrow> int" where
  "digitize x bins = int (length (filter (\<lambda>b. b \<le> x) bins))"

text \<open>The bin of one velocity: an entry of \<^verbatim>\<open>np.digitize(df["velocity"], edges) - 1\<close>.\<close>

definition velocity_to_bin :: "codec \<Rightarrow> int \<Rightarrow> int" where
  "velocity_to_bin c v = digitize v (velocity_bin_edges c) - 1"

text \<open>\<^verbatim>\<open>quantize_frame\<close> assigns the column in the frame it is given and returns that frame.\<close>

definition quantize_frame :: "codec \<Rightarrow> frame \<Rightarrow> frame" where
  "quantize_frame c df =
     df\<lparr>velocity_bin := Some (map (\<lambda>r. velocity_to_bin c (velocity r)) (rows df))\<rparr>"

record event =
  time :: real
  ev_pitch :: int
  ev_velocity_bin :: int
  event :: string

text \<open>The ON and the OFF record of one row, as \<^verbatim>\<open>to_dict(orient="records")\<close> gives them.\<close>

definition note_on_event :: "note_row \<Rightarrow> int \<Rightarrow> event" where
  "note_on_event r b = \<lparr>time = start r, ev_pitch = pitch r, ev_velocity_bin = b, event = ''NOTE_ON''\<rparr>"

definition note_off_event :: "note_row \<Rightarrow> int \<Rightarrow> event" where
  "note_off_event r b = \<lparr>time = end_time r, ev_pitch = pitch r, ev_velocity_bin = b, event = ''NOTE_OFF''\<rparr>"

text \<open>
  \<^verbatim>\<open>_notes_to_events\<close>: the OFF records, then the ON records, sorted by time with Python's
  stable \<^verbatim>\<open>sorted\<close>. Selecting a column the frame does not have raises KeyError.
\<close>

definition notes_to_events :: "frame \<Rightarrow> error + event list" where
  "notes_to_events notes =
     (case velocity_bin notes of
        None \<Rightarrow> Inl KeyError
      | Some bins \<Rightarrow>
          (let note_on_events = map (\<lambda>(r, b). note_on_event r b) (zip (rows notes) bins);
               note_off_events = map (\<lambda>(r, b). note_off_event r b) (zip (rows notes) bins);
               note_events = note_off_events @ note_on_events
           in Inr (sort_key time note_events)))"

text \<open>
  For the statements: the ON and the OFF records of a frame once \<^verbatim>\<open>quantize_frame\<close> has
  run, in the order of the rows; the two symbols \<^verbatim>\<open>tokenize\<close> appends for an event after
  its time symbols; and the gaps between consecutive events.
\<close>

definition on_events :: "codec \<Rightarrow> frame \<Rightarrow> event list" where
  "on_events c notes = map (\<lambda>r. note_on_event r (velocity_to_bin c (velocity r))) (rows notes)"

definition off_events :: "codec \<Rightarrow> frame \<Rightarrow> event list" where
  "off_events c notes = map (\<lambda>r. note_off_event r (velocity_to_bin c (velocity r))) (rows notes)"

definition event_tokens :: "event \<Rightarrow> string list" where
  "event_tokens ev =
     [velocity_token (ev_velocity_bin ev),
      if event ev = ''NOTE_ON'' then note_on_token (ev_pitch ev) else note_off_token (ev_pitch ev)]"

fun gaps :: "real \<Rightarrow> event list \<Rightarrow> real list" where
  "gaps previous_time [] = []"
| "gaps previous_time (ev # evs) = (time ev - previous_time) # gaps (time ev) evs"

subsection \<open>Encoding\<close>

text \<open>The \<^verbatim>\<open>for current_event in note_events\<close> loop of \<^verbatim>\<open>tokenize\<close>, on \<open>tokens\<close> and \<open>previous_time\<close>.\<close>

fun tokenize_events :: "codec \<Rightarrow> event list \<Rightarrow> string list \<Rightarrow> real \<Rightarrow> (error + string list) option" where
  "tokenize_events c [] tokens previous_time = Some (Inr tokens)"
| "tokenize_events c (current_event # note_events) tokens previous_time =
     (case tokenize_time_distance c (time current_event - previous_time) of
        None \<Rightarrow> None
      | Some (Inl err) \<Rightarrow> Some (Inl err)
      | Some (Inr time_tokens) \<Rightarrow>
          (case and_then (dict_get (velocity_bin_to_token c) (ev_velocity_bin current_event))
                  (\<lambda>velocity_tok.
                    and_then (if event current_event = ''NOTE_ON''
                              then dict_get (pitch_to_on_token c) (ev_pitch current_event)
                              else dict_get (pitch_to_off_token c) (ev_pitch current_event))
                      (\<lambda>note_tok. Inr (tokens @ time_tokens @ [velocity_tok, note_tok]))) of
             Inl err \<Rightarrow> Some (Inl err)
           | Inr tokens' \<Rightarrow> tokenize_events c note_events tokens' (time current_event)))"

text \<open>
  \<^verbatim>\<open>tokenize\<close>. The result is paired with the codec and the caller's frame as the call
  leaves them: \<^verbatim>\<open>quantize_frame\<close> has written into the frame before anything else runs.
\<close>

definition tokenize :: "codec \<Rightarrow> frame \<Rightarrow> (error + string list) option \<times> codec \<times> frame" where
  "tokenize c notes =
     (let notes' = quantize_frame c notes
      in (case notes_to_events notes' of
            Inl err \<Rightarrow> Some (Inl err)
          | Inr note_events \<Rightarrow> tokenize_events c note_events [] 0,
          c, notes'))"

subsection \<open>Repair\<close>

record fix_state =
  pressed :: "int list"
  current_velocity_token :: string
  tokens_out :: "string list"

text \<open>
  One round of the first loop of \<^verbatim>\<open>fix_token_sequences\<close>: three independent \<^verbatim>\<open>if\<close>s. The
  loop runs over the list it was given; \<open>tokens_out\<close> is the variable \<^verbatim>\<open>tokens\<close>, rebound
  to a longer list when an orphaned NOTE_OFF is met.
\<close>

definition fix_velocity :: "string \<Rightarrow> fix_state \<Rightarrow> fix_state" where
  "fix_velocity token st =
     (if contains ''VELOCITY'' token then st\<lparr>current_velocity_token := token\<rparr> else st)"

definition fix_note_on :: "codec \<Rightarrow> string \<Rightarrow> fix_state \<Rightarrow> error + fix_state" where
  "fix_note_on c token st =
     (if contains ''NOTE_ON'' token then
        and_then (dict_get (token_to_velocity_bin c) (current_velocity_token st)) (\<lambda>vb.
        and_then (dict_get (token_to_pitch c) token) (\<lambda>p.
        and_then (index_of (pressed st) p) (\<lambda>i.
          Inr (st\<lparr>pressed := (pressed st)[i := vb]\<rparr>))))
      else Inr st)"

definition fix_note_off :: "codec \<Rightarrow> string \<Rightarrow> fix_state \<Rightarrow> error + fix_state" where
  "fix_note_off c token st =
     (if contains ''NOTE_OFF'' token then
        and_then (dict_get (token_to_pitch c) token) (\<lambda>p.
        and_then (index_of (pressed st) p) (\<lambda>i.
        and_then (if pressed st ! i = - 1
                  then and_then (dict_get (pitch_to_on_token c) p) (\<lambda>on_tok.
                         Inr (st\<lparr>tokens_out := [current_velocity_token st, on_tok] @ tokens_out st\<rparr>))
                  else Inr st) (\<lambda>st'.
          Inr (st'\<lparr>pressed := (pressed st')[i := - 1]\<rparr>))))
      else Inr st)"

definition fix_step :: "codec \<Rightarrow> string \<Rightarrow> fix_state \<Rightarrow> error + fix_state" where
  "fix_step c token st =
     and_then (fix_note_on c token (fix_velocity token st)) (fix_note_off c token)"

fun fix_scan :: "codec \<Rightarrow> string list \<Rightarrow> fix_state \<Rightarrow> error + fix_state" where
  "fix_scan c [] st = Inr st"
| "fix_scan c (token # rest) st = and_then (fix_step c token st) (fix_scan c rest)"

text \<open>The second loop, over \<^verbatim>\<open>enumerate(pressed)\<close>.\<close>

fun fix_release :: "codec \<Rightarrow> (nat \<times> int) list \<Rightarrow> string list \<Rightarrow> error + string list" where
  "fix_release c [] tokens = Inr tokens"
| "fix_release c ((key, state) # rest) tokens =
     (if state \<ge> 0 then
        and_then (dict_get (pitch_to_off_token c) (int key)) (\<lambda>note_off_tok.
        and_then (dict_get (velocity_bin_to_token c) state) (\<lambda>velocity_tok.
          fix_release c rest (tokens @ [velocity_tok, note_off_tok])))
      else fix_release c rest tokens)"

definition fix_token_sequences :: "codec \<Rightarrow> string list \<Rightarrow> error + string list" where
  "fix_token_sequences c tokens =
     and_then (fix_scan c tokens
                 \<lparr>pressed = replicate 110 (- 1), current_velocity_token = ''VELOCITY_0'',
                  tokens_out = tokens\<rparr>)
       (\<lambda>st. fix_release c (enumerate 0 (pressed st)) (tokens_out st))"

text \<open>
  For the statements about repair, two readings of a token list that do not mention the
  code: with \<open>a\<close> the symbol that opens (presses) and \<open>b\<close> the one that closes (releases),
  \<open>key_down a b d t\<close> says whether the key is down after \<open>t\<close> when it was \<open>d\<close> before, and
  \<open>unmatched a b d t\<close> counts the \<open>b\<close> of \<open>t\<close> that arrive while the key is not down.
\<close>

fun key_down :: "string \<Rightarrow> string \<Rightarrow> bool \<Rightarrow> string list \<Rightarrow> bool" where
  "key_down a b d [] = d"
| "key_down a b d (x # xs) = key_down a b (if x = a then True else if x = b then False else d) xs"

fun unmatched :: "string \<Rightarrow> string \<Rightarrow> bool \<Rightarrow> string list \<Rightarrow> nat" where
  "unmatched a b d [] = 0"
| "unmatched a b d (x # xs) =
     (if x = a then unmatched a b True xs
      else if x = b then (if d then 0 else 1) + unmatched a b False xs
      else unmatched a b d xs)"

text \<open>The states the first loop of the repair can be in, for a codec with \<open>n\<close> velocity bins.\<close>

definition fix_inv :: "int \<Rightarrow> fix_state \<Rightarrow> bool" where
  "fix_inv n st =
     (length (pressed st) = 110
      \<and> (\<forall>i < 110. - 1 \<le> pressed st ! i \<and> pressed st ! i < n
                    \<and> (pressed st ! i \<noteq> - 1 \<longrightarrow> 21 \<le> i \<and> i \<le> 108))
      \<and> (\<exists>b. 0 \<le> b \<and> b < n \<and> current_velocity_token st = velocity_token b))"

text \<open>
  What the first loop does to a state with array \<open>pr0\<close> and velocity symbol \<open>cv0\<close> on the
  tokens \<open>t\<close>, for the proofs: it ends with \<open>pr\<close> and \<open>cv\<close> and has put \<open>P\<close> in front.
\<close>

definition scan_effect ::
  "int \<Rightarrow> int list \<Rightarrow> string \<Rightarrow> string list \<Rightarrow> int list \<Rightarrow> string \<Rightarrow> string list \<Rightarrow> bool" where
  "scan_effect n pr0 cv0 t pr cv P =
     (fix_inv n \<lparr>pressed = pr, current_velocity_token = cv, tokens_out = []\<rparr>
      \<and> (\<forall>p. 21 \<le> p \<and> p \<le> 108 \<longrightarrow>
             (pr ! nat p \<noteq> - 1)
               = key_down (note_on_token p) (note_off_token p) (pr0 ! nat p \<noteq> - 1) t
           \<and> count_list P (note_on_token p)
               = unmatched (note_on_token p) (note_off_token p) (pr0 ! nat p \<noteq> - 1) t)
      \<and> (\<forall>x \<in> set P. (\<exists>b. 0 \<le> b \<and> b < n \<and> x = velocity_token b)
                        \<or> (\<exists>p. 21 \<le> p \<and> p \<le> 108 \<and> x = note_on_token p))
      \<and> ((\<forall>p. 21 \<le> p \<and> p \<le> 108 \<longrightarrow>
              unmatched (note_on_token p) (note_off_token p) (pr0 ! nat p \<noteq> - 1) t = 0) \<longrightarrow> P = [])
      \<and> ((\<forall>x \<in> set t. \<not> contains ''VELOCITY'' x) \<longrightarrow> cv = cv0))"

text \<open>What the second loop of the repair appends for a \<open>pressed\<close> array.\<close>

definition released :: "int list \<Rightarrow> string list" where
  "released pr =
     concat (map (\<lambda>(key, state). [velocity_token state, note_off_token (int key)])
               (filter (\<lambda>(key, state). 0 \<le> state) (enumerate 0 pr)))"

subsection \<open>Decoding\<close>

record on_record =
  on_pitch :: int
  on_start :: real
  on_velocity :: int

record off_record =
  off_pitch :: int
  off_end :: real

record decode_state =
  current_time :: real
  current_velocity :: int
  note_on_events :: "on_record list"
  note_off_events :: "off_record list"










subsection \<open>Example inputs\<close>

text \<open>\<open>with_codec e n f\<close> constructs the codec and runs \<open>f\<close> on it.\<close>

definition with_codec :: "real \<Rightarrow> int \<Rightarrow> (codec \<Rightarrow> 'a) \<Rightarrow> 'a option" where
  "with_codec e n f = (case NoLossTokenizer e n of Some (Inr c) \<Rightarrow> Some (f c) | _ \<Rightarrow> None)"


text \<open>
  Two notes of different pitches, the second starting when the first ends; every time is
  a binary fraction, so that floating-point arithmetic is exact on them.
\<close>

definition two_notes :: frame where
  "two_notes =
     \<lparr>rows = [\<lparr>pitch = 60, start = 0, end_time = 1/2, velocity = 100\<rparr>,
              \<lparr>pitch = 64, start = 1/2, end_time = 1, velocity = 50\<rparr>],
      velocity_bin = None\<rparr>"

definition two_notes_tokens :: "string list" where
  "two_notes_tokens =
     [''VELOCITY_2'', ''NOTE_ON_60'', ''3T'', ''VELOCITY_2'', ''NOTE_OFF_60'',
      ''VELOCITY_1'', ''NOTE_ON_64'', ''3T'', ''VELOCITY_1'', ''NOTE_OFF_64'']"

section \<open>Facts about the strings of the vocabulary\<close>

lemma digit_char: "d < 10 \<Longrightarrow> is_digit (''0123456789'' ! d)"
  unfolding is_digit_def by (rule nth_mem) simp

lemma not_digit [simp]:
  "\<not> is_digit CHR ''V''" "\<not> is_digit CHR ''N''" "\<not> is_digit CHR ''F''" "\<not> is_digit CHR ''T''"
  "\<not> is_digit CHR ''-''" "\<not> is_digit CHR 0x0A"
  by (simp_all add: is_digit_def)

lemma digit_char_inj: "d < 10 \<Longrightarrow> d' < 10 \<Longrightarrow> ''0123456789'' ! d = ''0123456789'' ! d' \<Longrightarrow> d = d'"
proof -
  have "distinct ''0123456789''" by simp
  then show "d < 10 \<Longrightarrow> d' < 10 \<Longrightarrow> ''0123456789'' ! d = ''0123456789'' ! d' \<Longrightarrow> d = d'"
    by (simp add: nth_eq_iff_index_eq)
qed

lemma str_nat_nonempty: "str_nat n \<noteq> []"
  by (subst str_nat.simps) simp

lemma str_nat_digits: "ch \<in> set (str_nat n) \<Longrightarrow> is_digit ch"
proof (induction n rule: str_nat.induct)
  case (1 n)
  show ?case
  proof (cases "n < 10")
    case True
    then have "str_nat n = [''0123456789'' ! n]" by (subst str_nat.simps) simp
    with 1(2) True show ?thesis using digit_char[of n] by simp
  next
    case False
    then have "str_nat n = str_nat (n div 10) @ [''0123456789'' ! (n mod 10)]"
      by (subst str_nat.simps) simp
    with 1(2) have "ch \<in> set (str_nat (n div 10)) \<or> ch = ''0123456789'' ! (n mod 10)" by auto
    then show ?thesis
    proof
      assume "ch \<in> set (str_nat (n div 10))"
      then show ?thesis using 1(1)[OF False] by simp
    next
      assume "ch = ''0123456789'' ! (n mod 10)"
      then show ?thesis using digit_char[of "n mod 10"] by simp
    qed
  qed
qed

lemma str_nat_inj: "str_nat n = str_nat m \<Longrightarrow> n = m"
proof (induction n arbitrary: m rule: str_nat.induct)
  case (1 n)
  show ?case
  proof (cases "n < 10")
    case True
    then have sn: "str_nat n = [''0123456789'' ! n]" by (subst str_nat.simps) simp
    show ?thesis
    proof (cases "m < 10")
      case m: True
      then have "str_nat m = [''0123456789'' ! m]" by (subst str_nat.simps) simp
      with sn 1(2) have "''0123456789'' ! n = ''0123456789'' ! m" by simp
      with True m show ?thesis by (rule digit_char_inj)
    next
      case m: False
      then have "str_nat m = str_nat (m div 10) @ [''0123456789'' ! (m mod 10)]" by (subst str_nat.simps) simp
      with sn 1(2) show ?thesis using str_nat_nonempty[of "m div 10"] by simp
    qed
  next
    case False
    then have sn: "str_nat n = str_nat (n div 10) @ [''0123456789'' ! (n mod 10)]" by (subst str_nat.simps) simp
    show ?thesis
    proof (cases "m < 10")
      case m: True
      then have "str_nat m = [''0123456789'' ! m]" by (subst str_nat.simps) simp
      with sn 1(2) show ?thesis using str_nat_nonempty[of "n div 10"] by simp
    next
      case m: False
      then have sm: "str_nat m = str_nat (m div 10) @ [''0123456789'' ! (m mod 10)]" by (subst str_nat.simps) simp
      from sn sm 1(2) have e1: "str_nat (n div 10) = str_nat (m div 10)" and e2: "''0123456789'' ! (n mod 10) = ''0123456789'' ! (m mod 10)" by simp_all
      from 1(1)[OF False e1] have "n div 10 = m div 10" .
      moreover have "n mod 10 = m mod 10" by (rule digit_char_inj[OF _ _ e2]) simp_all
      ultimately show ?thesis by (metis div_mult_mod_eq)
    qed
  qed
qed

lemma str_int_nonempty: "str_int i \<noteq> []"
  by (simp add: str_int_def str_nat_nonempty)

lemma str_int_chars: "ch \<in> set (str_int i) \<Longrightarrow> is_digit ch \<or> ch = CHR ''-''"
  by (auto simp: str_int_def dest: str_nat_digits split: if_splits)

lemma last_str_int: "is_digit (last (str_int i))"
proof -
  have "is_digit (last (str_nat n))" for n
    using str_nat_nonempty[of n] str_nat_digits[of "last (str_nat n)" n] by simp
  then show ?thesis by (simp add: str_int_def str_nat_nonempty)
qed

lemma str_int_inj: "str_int i = str_int j \<Longrightarrow> i = j"
proof -
  assume a: "str_int i = str_int j"
  have neg: "CHR ''-'' # str_nat n \<noteq> str_nat m" for n m
  proof
    assume "CHR ''-'' # str_nat n = str_nat m"
    then have "CHR ''-'' \<in> set (str_nat m)" by (metis list.set_intros(1))
    then show False by (auto dest: str_nat_digits)
  qed
  consider "i < 0" "j < 0" | "i < 0" "\<not> j < 0" | "\<not> i < 0" "j < 0" | "\<not> i < 0" "\<not> j < 0" by blast
  then show ?thesis
  proof cases
    case 1
    with a have "str_nat (nat (- i)) = str_nat (nat (- j))" by (simp add: str_int_def)
    then have "nat (- i) = nat (- j)" by (rule str_nat_inj)
    with 1 show ?thesis by simp
  next
    case 2
    with a neg[of "nat (- i)" "nat j"] show ?thesis by (simp add: str_int_def)
  next
    case 3
    with a neg[of "nat (- j)" "nat i"] show ?thesis by (simp add: str_int_def)
  next
    case 4
    with a have "str_nat (nat i) = str_nat (nat j)" by (simp add: str_int_def)
    then have "nat i = nat j" by (rule str_nat_inj)
    with 4 show ?thesis by simp
  qed
qed

lemma str_int_eq_iff [simp]: "str_int i = str_int j \<longleftrightarrow> i = j"
  using str_int_inj by auto

lemma note_on_token_eq [simp]: "note_on_token p = note_on_token q \<longleftrightarrow> p = q"
  by (simp add: note_on_token_def)

lemma note_off_token_eq [simp]: "note_off_token p = note_off_token q \<longleftrightarrow> p = q"
  by (simp add: note_off_token_def)

lemma velocity_token_eq [simp]: "velocity_token p = velocity_token q \<longleftrightarrow> p = q"
  by (simp add: velocity_token_def)

lemma time_token_eq [simp]: "time_token p = time_token q \<longleftrightarrow> p = q"
  by (simp add: time_token_def)

lemma last_tokens:
  "is_digit (last (note_on_token p))" "is_digit (last (note_off_token p))"
  "is_digit (last (velocity_token p))" "last (time_token k) = CHR ''T''"
  using last_str_int[of p]
  by (simp_all add: note_on_token_def note_off_token_def velocity_token_def time_token_def str_int_nonempty)

lemma token_distinct [simp]:
  "note_on_token p \<noteq> note_off_token q" "note_off_token q \<noteq> note_on_token p"
  "note_on_token p \<noteq> velocity_token b" "velocity_token b \<noteq> note_on_token p"
  "note_off_token p \<noteq> velocity_token b" "velocity_token b \<noteq> note_off_token p"
  "note_on_token p \<noteq> ''<CLS>''" "note_off_token p \<noteq> ''<CLS>''" "velocity_token b \<noteq> ''<CLS>''"
  "''<CLS>'' \<noteq> note_on_token p" "''<CLS>'' \<noteq> note_off_token p" "''<CLS>'' \<noteq> velocity_token b"
  by (simp_all add: note_on_token_def note_off_token_def velocity_token_def)

lemma time_token_not_digit_end: "is_digit (last s) \<Longrightarrow> time_token k \<noteq> s"
  using last_tokens(4)[of k] by auto


lemma time_token_distinct [simp]:
  "time_token k \<noteq> note_on_token p" "time_token k \<noteq> note_off_token p"
  "time_token k \<noteq> velocity_token b" "time_token k \<noteq> ''<CLS>''"
  "note_on_token p \<noteq> time_token k" "note_off_token p \<noteq> time_token k"
  "velocity_token b \<noteq> time_token k" "''<CLS>'' \<noteq> time_token k"
proof -
  show "time_token k \<noteq> note_on_token p" by (rule time_token_not_digit_end) (rule last_tokens)
  then show "note_on_token p \<noteq> time_token k" by (rule not_sym)
  show "time_token k \<noteq> note_off_token p" by (rule time_token_not_digit_end) (rule last_tokens)
  then show "note_off_token p \<noteq> time_token k" by (rule not_sym)
  show "time_token k \<noteq> velocity_token b" by (rule time_token_not_digit_end) (rule last_tokens)
  then show "velocity_token b \<noteq> time_token k" by (rule not_sym)
  have "last ''<CLS>'' \<noteq> CHR ''T''" by simp
  then show "time_token k \<noteq> ''<CLS>''" using last_tokens(4)[of k] by metis
  then show "''<CLS>'' \<noteq> time_token k" by (rule not_sym)
qed

lemma not_contains: "ch \<in> set needle \<Longrightarrow> ch \<notin> set token \<Longrightarrow> \<not> contains needle token"
  by (auto simp: contains_def dest: set_mono_sublist)

lemma no_char: "\<not> is_digit ch \<Longrightarrow> ch \<noteq> CHR ''-'' \<Longrightarrow> ch \<notin> set pre \<Longrightarrow> ch \<notin> set post
  \<Longrightarrow> ch \<notin> set (pre @ str_int p @ post)"
  using str_int_chars[of ch p] by auto

lemma no_V:
  "CHR ''V'' \<notin> set (note_on_token p)" "CHR ''V'' \<notin> set (note_off_token p)"
  "CHR ''V'' \<notin> set (time_token p)"
  using no_char[of "CHR ''V''" "''NOTE_ON_''" "[]" p] no_char[of "CHR ''V''" "''NOTE_OFF_''" "[]" p]
    no_char[of "CHR ''V''" "[]" "''T''" p]
  by (simp_all add: note_on_token_def note_off_token_def time_token_def)

lemma no_N:
  "CHR ''N'' \<notin> set (velocity_token p)" "CHR ''N'' \<notin> set (time_token p)" "CHR ''N'' \<notin> set (str_int p)"
  using no_char[of "CHR ''N''" "''VELOCITY_''" "[]" p] no_char[of "CHR ''N''" "[]" "''T''" p]
    no_char[of "CHR ''N''" "[]" "[]" p]
  by (simp_all add: velocity_token_def time_token_def)

lemma no_F:
  "CHR ''F'' \<notin> set (note_on_token p)" "CHR ''F'' \<notin> set (velocity_token p)"
  "CHR ''F'' \<notin> set (time_token p)"
  using no_char[of "CHR ''F''" "''NOTE_ON_''" "[]" p] no_char[of "CHR ''F''" "''VELOCITY_''" "[]" p]
    no_char[of "CHR ''F''" "[]" "''T''" p]
  by (simp_all add: note_on_token_def velocity_token_def time_token_def)

lemma contains_velocity [simp]:
  "contains ''VELOCITY'' (velocity_token b)"
  "\<not> contains ''VELOCITY'' (note_on_token p)"
  "\<not> contains ''VELOCITY'' (note_off_token p)"
  "\<not> contains ''VELOCITY'' (time_token k)"
  "\<not> contains ''VELOCITY'' ''<CLS>''"
proof -
  show "contains ''VELOCITY'' (velocity_token b)"
    unfolding contains_def velocity_token_def
    by (rule prefix_imp_sublist) (simp add: prefix_def)
  have v: "CHR ''V'' \<in> set ''VELOCITY''" by simp
  show "\<not> contains ''VELOCITY'' (note_on_token p)" by (rule not_contains[OF v no_V(1)])
  show "\<not> contains ''VELOCITY'' (note_off_token p)" by (rule not_contains[OF v no_V(2)])
  show "\<not> contains ''VELOCITY'' (time_token k)" by (rule not_contains[OF v no_V(3)])
  show "\<not> contains ''VELOCITY'' ''<CLS>''" by (rule not_contains[OF v]) simp
qed

lemma contains_note_off [simp]:
  "contains ''NOTE_OFF'' (note_off_token p)"
  "\<not> contains ''NOTE_OFF'' (note_on_token p)"
  "\<not> contains ''NOTE_OFF'' (velocity_token b)"
  "\<not> contains ''NOTE_OFF'' (time_token k)"
  "\<not> contains ''NOTE_OFF'' ''<CLS>''"
proof -
  show "contains ''NOTE_OFF'' (note_off_token p)"
    unfolding contains_def note_off_token_def
    by (rule prefix_imp_sublist) (simp add: prefix_def)
  have v: "CHR ''F'' \<in> set ''NOTE_OFF''" by simp
  show "\<not> contains ''NOTE_OFF'' (note_on_token p)" by (rule not_contains[OF v no_F(1)])
  show "\<not> contains ''NOTE_OFF'' (velocity_token b)" by (rule not_contains[OF v no_F(2)])
  show "\<not> contains ''NOTE_OFF'' (time_token k)" by (rule not_contains[OF v no_F(3)])
  show "\<not> contains ''NOTE_OFF'' ''<CLS>''" by (rule not_contains[OF v]) simp
qed

lemma not_sublist_Cons: "\<not> prefix xs (y # ys) \<Longrightarrow> \<not> sublist xs ys \<Longrightarrow> \<not> sublist xs (y # ys)"
  by (simp add: sublist_Cons_right)

lemma contains_note_on [simp]:
  "contains ''NOTE_ON'' (note_on_token p)"
  "\<not> contains ''NOTE_ON'' (note_off_token p)"
  "\<not> contains ''NOTE_ON'' (velocity_token b)"
  "\<not> contains ''NOTE_ON'' (time_token k)"
  "\<not> contains ''NOTE_ON'' ''<CLS>''"
proof -
  show "contains ''NOTE_ON'' (note_on_token p)"
    unfolding contains_def note_on_token_def
    by (rule prefix_imp_sublist) (simp add: prefix_def)
  have v: "CHR ''N'' \<in> set ''NOTE_ON''" by simp
  have "\<not> sublist ''NOTE_ON'' (str_int p)"
    using no_N(3)[of p] v by (meson set_mono_sublist subsetD)
  then show "\<not> contains ''NOTE_ON'' (note_off_token p)"
    unfolding contains_def note_off_token_def append.simps
    by (intro not_sublist_Cons) simp_all
  show "\<not> contains ''NOTE_ON'' (velocity_token b)" by (rule not_contains[OF v no_N(1)])
  show "\<not> contains ''NOTE_ON'' (time_token k)" by (rule not_contains[OF v no_N(2)])
  show "\<not> contains ''NOTE_ON'' ''<CLS>''" by (rule not_contains[OF v]) simp
qed

lemma search_dot_T_digit: "token \<noteq> [] \<Longrightarrow> is_digit (last token) \<Longrightarrow> \<not> search_dot_T token"
  by (auto simp: search_dot_T_def Let_def)

lemma search_dot_T_tokens [simp]:
  "search_dot_T (time_token k)"
  "\<not> search_dot_T (note_on_token p)"
  "\<not> search_dot_T (note_off_token p)"
  "\<not> search_dot_T (velocity_token b)"
  "\<not> search_dot_T ''<CLS>''"
proof -
  have "length (str_int k) \<ge> 1" using str_int_nonempty[of k] by (cases "str_int k") auto
  moreover have "last (str_int k) \<noteq> CHR 0x0A" using last_str_int[of k] by auto
  ultimately show "search_dot_T (time_token k)"
    by (simp add: search_dot_T_def time_token_def butlast_append str_int_nonempty)
  show "\<not> search_dot_T (note_on_token p)"
    by (rule search_dot_T_digit[OF _ last_tokens(1)]) (simp add: note_on_token_def)
  show "\<not> search_dot_T (note_off_token p)"
    by (rule search_dot_T_digit[OF _ last_tokens(2)]) (simp add: note_off_token_def)
  show "\<not> search_dot_T (velocity_token b)"
    by (rule search_dot_T_digit[OF _ last_tokens(3)]) (simp add: velocity_token_def)
  show "\<not> search_dot_T ''<CLS>''"
    by (simp add: search_dot_T_def)
qed

section \<open>Facts about construction\<close>

lemma rung_double: "1 \<le> k \<Longrightarrow> rung e k * 2 = rung e (k + 1)"
proof -
  assume "1 \<le> k"
  then have "nat (k + 1 - 1) = Suc (nat (k - 1))" by simp
  then show ?thesis by (simp add: rung_def)
qed

lemma rung_one [simp]: "rung e 1 = e"
  by (simp add: rung_def)

lemma rung_pos: "0 < e \<Longrightarrow> 0 < rung e k"
  by (simp add: rung_def)

lemma rung_strict_mono: "0 < e \<Longrightarrow> 1 \<le> j \<Longrightarrow> j < k \<Longrightarrow> rung e j < rung e k"
proof -
  assume a: "0 < e" "1 \<le> j" "j < k"
  then have "nat (j - 1) < nat (k - 1)" by simp
  then have "(2::real) ^ nat (j - 1) < 2 ^ nat (k - 1)" by simp
  with a(1) show ?thesis by (simp add: rung_def)
qed

lemma rung_mono: "0 < e \<Longrightarrow> 1 \<le> j \<Longrightarrow> j \<le> k \<Longrightarrow> rung e j \<le> rung e k"
  using rung_strict_mono[of e j k] by (cases "j = k") auto

lemma rung_inj: "0 < e \<Longrightarrow> 1 \<le> j \<Longrightarrow> 1 \<le> k \<Longrightarrow> rung e j = rung e k \<Longrightarrow> j = k"
  using rung_strict_mono[of e j k] rung_strict_mono[of e k j] by (cases j k rule: linorder_cases) auto

lemma ladder_empty: "ladder e 0 ([], Map.empty, Map.empty)"
  by (simp add: ladder_def)

lemma ladder_step:
  assumes "ladder e K (tv, t2d, d2t)" "0 \<le> K" "0 < e"
  shows "ladder e (K + 1) (tv @ [time_token (K + 1)], t2d(time_token (K + 1) \<mapsto> rung e (K + 1)),
           d2t(rung e (K + 1) \<mapsto> time_token (K + 1)))"
proof -
  from assms(1) have tv: "tv = map time_token [1..K]"
    and t2d: "\<And>s x. t2d s = Some x \<longleftrightarrow> (\<exists>k. 1 \<le> k \<and> k \<le> K \<and> s = time_token k \<and> x = rung e k)"
    and d2t: "\<And>x s. d2t x = Some s \<longleftrightarrow> (\<exists>k. 1 \<le> k \<and> k \<le> K \<and> s = time_token k \<and> x = rung e k)"
    by (simp_all add: ladder_def)
  have 1: "tv @ [time_token (K + 1)] = map time_token [1..K + 1]"
    using assms(2) tv by (simp add: upto_rec2)
  have 2: "(t2d(time_token (K + 1) \<mapsto> rung e (K + 1))) s = Some x
      \<longleftrightarrow> (\<exists>k. 1 \<le> k \<and> k \<le> K + 1 \<and> s = time_token k \<and> x = rung e k)" for s x
  proof (cases "s = time_token (K + 1)")
    case True
    then show ?thesis using assms(2) by auto
  next
    case False
    then have "(t2d(time_token (K + 1) \<mapsto> rung e (K + 1))) s = Some x \<longleftrightarrow> t2d s = Some x" by simp
    also have "\<dots> \<longleftrightarrow> (\<exists>k. 1 \<le> k \<and> k \<le> K \<and> s = time_token k \<and> x = rung e k)" by (rule t2d)
    also have "\<dots> \<longleftrightarrow> (\<exists>k. 1 \<le> k \<and> k \<le> K + 1 \<and> s = time_token k \<and> x = rung e k)"
      using False by (metis add.commute add_le_cancel_left le_less_trans less_add_one linorder_not_le order_le_less zle_add1_eq_le)
    finally show ?thesis .
  qed
  have 3: "(d2t(rung e (K + 1) \<mapsto> time_token (K + 1))) x = Some s
      \<longleftrightarrow> (\<exists>k. 1 \<le> k \<and> k \<le> K + 1 \<and> s = time_token k \<and> x = rung e k)" for s x
  proof (cases "x = rung e (K + 1)")
    case True
    have "k = K + 1" if "1 \<le> k" "k \<le> K + 1" "x = rung e k" for k
      using rung_inj[OF assms(3), of k "K + 1"] that True assms(2) by simp
    with True show ?thesis using assms(2) by auto
  next
    case False
    then have "(d2t(rung e (K + 1) \<mapsto> time_token (K + 1))) x = Some s \<longleftrightarrow> d2t x = Some s" by simp
    also have "\<dots> \<longleftrightarrow> (\<exists>k. 1 \<le> k \<and> k \<le> K \<and> s = time_token k \<and> x = rung e k)" by (rule d2t)
    also have "\<dots> \<longleftrightarrow> (\<exists>k. 1 \<le> k \<and> k \<le> K + 1 \<and> s = time_token k \<and> x = rung e k)"
    proof
      assume "\<exists>k. 1 \<le> k \<and> k \<le> K \<and> s = time_token k \<and> x = rung e k"
      then obtain k where "1 \<le> k" "k \<le> K" "s = time_token k" "x = rung e k" by blast
      then have "1 \<le> k \<and> k \<le> K + 1 \<and> s = time_token k \<and> x = rung e k" by simp
      then show "\<exists>k. 1 \<le> k \<and> k \<le> K + 1 \<and> s = time_token k \<and> x = rung e k" ..
    next
      assume "\<exists>k. 1 \<le> k \<and> k \<le> K + 1 \<and> s = time_token k \<and> x = rung e k"
      then obtain k where k: "1 \<le> k" "k \<le> K + 1" "s = time_token k" "x = rung e k" by blast
      with False have "k \<noteq> K + 1" by auto
      with k have "1 \<le> k \<and> k \<le> K \<and> s = time_token k \<and> x = rung e k" by simp
      then show "\<exists>k. 1 \<le> k \<and> k \<le> K \<and> s = time_token k \<and> x = rung e k" ..
    qed
    finally show ?thesis .
  qed
  show ?thesis unfolding ladder_def using 1 2 3 by simp
qed

lemma time_vocab_loop_runs:
  assumes "0 < e"
  shows "ladder e (i - 1) tabs \<Longrightarrow> 1 \<le> i \<Longrightarrow> 1 \<le> rung e (i + int m) \<Longrightarrow> (i = 1 \<or> rung e (i - 1) < 1)
    \<Longrightarrow> \<exists>K tabs'. time_vocab_loop i (rung e i) tabs = Some tabs' \<and> ladder e K tabs' \<and> 0 \<le> K
          \<and> (K = 0 \<or> rung e K < 1) \<and> 1 \<le> rung e (K + 1)"
proof (induction m arbitrary: i tabs)
  case 0
  then have "\<not> rung e i < 1" by simp
  then have "time_vocab_loop i (rung e i) tabs = Some tabs"
    by (subst time_vocab_loop.simps) simp
  moreover have "i - 1 = 0 \<or> rung e (i - 1) < 1" using 0 by auto
  ultimately show ?case using 0 by (intro exI[of _ "i - 1"] exI[of _ tabs]) simp
next
  case (Suc m)
  show ?case
  proof (cases "rung e i < 1")
    case False
    then have "time_vocab_loop i (rung e i) tabs = Some tabs"
      by (subst time_vocab_loop.simps) simp
    moreover have "i - 1 = 0 \<or> rung e (i - 1) < 1" using Suc.prems by auto
    ultimately show ?thesis using Suc.prems False by (intro exI[of _ "i - 1"] exI[of _ tabs]) simp
  next
    case True
    obtain tv t2d d2t where tabs: "tabs = (tv, t2d, d2t)" by (cases tabs) auto
    let ?tabs = "(tv @ [time_token i], t2d(time_token i \<mapsto> rung e i), d2t(rung e i \<mapsto> time_token i))"
    have unfold: "time_vocab_loop i (rung e i) tabs = time_vocab_loop (i + 1) (rung e (i + 1)) ?tabs"
      using True Suc.prems(2) by (subst time_vocab_loop.simps) (simp add: tabs rung_double)
    have "ladder e (i - 1 + 1) ?tabs"
      using ladder_step[of e "i - 1" tv t2d d2t] Suc.prems(1,2) assms by (simp add: tabs)
    then have l: "ladder e (i + 1 - 1) ?tabs" by simp
    have "i + int (Suc m) = i + 1 + int m" by simp
    with Suc.prems(3) have r: "1 \<le> rung e (i + 1 + int m)" by (simp only:)
    have "\<exists>K tabs'. time_vocab_loop (i + 1) (rung e (i + 1)) ?tabs = Some tabs' \<and> ladder e K tabs' \<and> 0 \<le> K
          \<and> (K = 0 \<or> rung e K < 1) \<and> 1 \<le> rung e (K + 1)"
      using Suc.IH[OF l _ r] Suc.prems(2) True by simp
    then show ?thesis by (simp only: unfold)
  qed
qed

lemma arch_rung: "0 < e \<Longrightarrow> \<exists>m. 1 \<le> rung e (1 + int m)"
proof -
  assume e: "0 < e"
  obtain n where "1 / e < (2::real) ^ n" using real_arch_pow[of 2 "1 / e"] by auto
  with e have "1 < e * 2 ^ n" by (simp add: field_simps)
  then have "1 \<le> rung e (1 + int n)" by (simp add: rung_def)
  then show ?thesis ..
qed

lemma time_vocab_ok:
  assumes "0 < e"
  shows "\<exists>K tabs. time_vocab e = Some tabs \<and> ladder e K tabs \<and> 0 \<le> K
          \<and> (K = 0 \<or> rung e K < 1) \<and> 1 \<le> rung e (K + 1)"
proof -
  obtain m where m: "1 \<le> rung e (1 + int m)" using arch_rung[OF assms] by blast
  show ?thesis
    using time_vocab_loop_runs[OF assms, of 1 "([], Map.empty, Map.empty)" m] m ladder_empty[of e]
    by (simp add: time_vocab_def)
qed

lemma time_vocab_loop_Some_pos:
  assumes "time_vocab_loop i dt tabs = Some r"
  shows "0 < dt"
proof (rule time_vocab_loop.raw_induct[where P = "\<lambda>i dt tabs r. 0 < dt", OF _ assms], goal_cases)
  case (1 loop i dt tabs r)
  show ?case
  proof (cases "dt < 1")
    case True
    obtain tv t2d d2t where "tabs = (tv, t2d, d2t)" by (cases tabs) auto
    with 1(2) True have "loop (i + 1) (dt * 2) (tv @ [time_token i], t2d(time_token i \<mapsto> dt), d2t(dt \<mapsto> time_token i)) = Some r"
      by simp
    then have "0 < dt * 2" by (rule 1(1))
    then show ?thesis by simp
  next
    case False
    then show ?thesis by simp
  qed
qed

lemma time_vocab_diverges: "e \<le> 0 \<Longrightarrow> time_vocab e = None"
  using time_vocab_loop_Some_pos[of 1 e "([], Map.empty, Map.empty)"]
  by (cases "time_vocab e") (auto simp: time_vocab_def)

lemma fold_add_pitch_on:
  "pitch_to_on_token (fold add_pitch ps c) = (\<lambda>p. if p \<in> set ps then Some (note_on_token p) else pitch_to_on_token c p)"
  by (induction ps arbitrary: c) (auto simp: add_pitch_def fun_eq_iff)

lemma fold_add_pitch_off:
  "pitch_to_off_token (fold add_pitch ps c) = (\<lambda>p. if p \<in> set ps then Some (note_off_token p) else pitch_to_off_token c p)"
  by (induction ps arbitrary: c) (auto simp: add_pitch_def fun_eq_iff)

lemma fold_add_pitch_token:
  "token_to_pitch (fold add_pitch ps c) s = Some p \<longleftrightarrow>
     (p \<in> set ps \<and> (s = note_on_token p \<or> s = note_off_token p))
     \<or> ((\<forall>q \<in> set ps. s \<noteq> note_on_token q \<and> s \<noteq> note_off_token q) \<and> token_to_pitch c s = Some p)"
proof (induction ps arbitrary: c)
  case Nil
  show ?case by simp
next
  case (Cons x xs)
  show ?case
    unfolding fold_simps Cons.IH
    by (auto simp: add_pitch_def)
qed

lemma fold_add_pitch_vocab:
  "vocab (fold add_pitch ps c) = vocab c @ concat (map (\<lambda>p. [note_on_token p, note_off_token p]) ps)"
  by (induction ps arbitrary: c) (auto simp: add_pitch_def)

lemma fold_add_pitch_other:
  "eps (fold add_pitch ps c) = eps c" "n_velocity_bins (fold add_pitch ps c) = n_velocity_bins c"
  "token_to_velocity_bin (fold add_pitch ps c) = token_to_velocity_bin c"
  "velocity_bin_to_token (fold add_pitch ps c) = velocity_bin_to_token c"
  by (induction ps arbitrary: c) (auto simp: add_pitch_def)

lemma fold_add_velocity_bin:
  "velocity_bin_to_token (fold add_velocity bs c) = (\<lambda>b. if b \<in> set bs then Some (velocity_token b) else velocity_bin_to_token c b)"
  by (induction bs arbitrary: c) (auto simp: add_velocity_def fun_eq_iff)

lemma fold_add_velocity_token:
  "token_to_velocity_bin (fold add_velocity bs c) s = Some b \<longleftrightarrow>
     (b \<in> set bs \<and> s = velocity_token b)
     \<or> ((\<forall>q \<in> set bs. s \<noteq> velocity_token q) \<and> token_to_velocity_bin c s = Some b)"
proof (induction bs arbitrary: c)
  case Nil
  show ?case by simp
next
  case (Cons x xs)
  show ?case
    unfolding fold_simps Cons.IH
    by (auto simp: add_velocity_def)
qed

lemma fold_add_velocity_vocab:
  "vocab (fold add_velocity bs c) = vocab c @ map velocity_token bs"
  by (induction bs arbitrary: c) (auto simp: add_velocity_def)

lemma fold_add_velocity_other:
  "eps (fold add_velocity bs c) = eps c" "n_velocity_bins (fold add_velocity bs c) = n_velocity_bins c"
  "token_to_pitch (fold add_velocity bs c) = token_to_pitch c"
  "pitch_to_on_token (fold add_velocity bs c) = pitch_to_on_token c"
  "pitch_to_off_token (fold add_velocity bs c) = pitch_to_off_token c"
  by (induction bs arbitrary: c) (auto simp: add_velocity_def)

lemma ladder_fields:
  assumes "ladder e K (tv, t2d, d2t)"
  shows "tv = map time_token [1..K]"
    and "t2d s = Some x \<longleftrightarrow> (\<exists>k. 1 \<le> k \<and> k \<le> K \<and> s = time_token k \<and> x = rung e k)"
    and "d2t x = Some s \<longleftrightarrow> (\<exists>k. 1 \<le> k \<and> k \<le> K \<and> s = time_token k \<and> x = rung e k)"
  using assms by (simp_all add: ladder_def)

lemma ladder_last:
  assumes "ladder e K (tv, t2d, d2t)" "1 \<le> K"
  shows "tv \<noteq> []" "t2d (last tv) = Some (rung e K)"
proof -
  have tv: "tv = map time_token [1..K]" using assms(1) by (rule ladder_fields)
  with assms(2) show "tv \<noteq> []" by simp
  from tv assms(2) have "last tv = time_token K" by (simp add: upto_rec2)
  moreover have "t2d (time_token K) = Some (rung e K)"
    unfolding ladder_fields(2)[OF assms(1)] using assms(2) by auto
  ultimately show "t2d (last tv) = Some (rung e K)" by simp
qed

lemma linspace_cases:
  "n < 0 \<Longrightarrow> linspace_0_127 n = Inl ValueError"
  "0 \<le> n \<Longrightarrow> \<exists>edges. linspace_0_127 n = Inr edges"
  by (simp_all add: linspace_0_127_def)

lemma NoLossTokenizer_result:
  "NoLossTokenizer e n =
     (if e \<le> 0 then None
      else if 1 \<le> e then Some (Inl IndexError)
      else if n < 0 then Some (Inl ValueError)
      else NoLossTokenizer e n)
   \<and> (0 < e \<and> e < 1 \<and> 0 \<le> n \<longrightarrow> (\<exists>c K. NoLossTokenizer e n = Some (Inr c) \<and> built e n K c))"
proof (cases "e \<le> 0")
  case True
  then show ?thesis
    by (simp del: upto_rec_numeral add: NoLossTokenizer_def build_vocab_def Let_def fold_add_pitch_other fold_add_velocity_other time_vocab_diverges)
next
  case False
  then have e: "0 < e" by simp
  obtain K tv t2d d2t where tv: "time_vocab e = Some (tv, t2d, d2t)" and l: "ladder e K (tv, t2d, d2t)"
    and K: "0 \<le> K" "K = 0 \<or> rung e K < 1" "1 \<le> rung e (K + 1)"
    using time_vocab_ok[OF e] by (metis prod_cases3)
  show ?thesis
  proof (cases "1 \<le> e")
    case True
    have "K = 0"
    proof (rule ccontr)
      assume "K \<noteq> 0"
      with K have "1 \<le> K" "rung e K < 1" by auto
      with rung_mono[OF e, of 1 K] True show False by simp
    qed
    with l have "tv = []" by (simp add: ladder_def)
    with True e tv show ?thesis
      by (simp del: upto_rec_numeral add: NoLossTokenizer_def build_vocab_def Let_def fold_add_pitch_other fold_add_velocity_other)
  next
    case e1: False
    have K1: "1 \<le> K"
    proof (rule ccontr)
      assume "\<not> 1 \<le> K"
      with K have "K = 0" by simp
      with K(3) e1 show False by simp
    qed
    with K have rK: "rung e K < 1" by auto
    note last = ladder_last[OF l K1]
    show ?thesis
    proof (cases "n < 0")
      case True
      with e e1 tv last show ?thesis
        by (simp del: upto_rec_numeral add: NoLossTokenizer_def build_vocab_def Let_def fold_add_pitch_other fold_add_velocity_other
              and_then_def dict_get_def linspace_cases)
    next
      case False
      then obtain edges where edges: "linspace_0_127 n = Inr edges" using linspace_cases(2)[of n] by auto
      have tveq: "tv = map time_token [1..K]" using l by (rule ladder_fields)
      have "\<exists>c. NoLossTokenizer e n = Some (Inr c) \<and> built e n K c"
        using e e1 tv last edges l K1 rK K(3)
        by (simp del: upto_rec_numeral add: NoLossTokenizer_def build_vocab_def Let_def fold_add_pitch_other fold_add_velocity_other
              and_then_def dict_get_def built_def build_velocity_decoder_def
              fold_add_pitch_on fold_add_pitch_off fold_add_velocity_bin fold_add_pitch_token
              fold_add_velocity_token fold_add_pitch_vocab fold_add_velocity_vocab tveq[symmetric])
           (auto simp del: upto_rec_numeral simp add: fold_add_pitch_other fold_add_velocity_other)
      with e e1 False show ?thesis by auto
    qed
  qed
qed

lemma NoLossTokenizer_built:
  assumes "NoLossTokenizer e n = Some (Inr c)"
  shows "\<exists>K. built e n K c" "0 < e" "e < 1" "0 \<le> n"
proof -
  note r = NoLossTokenizer_result[of e n]
  show e0: "0 < e" using r assms by (cases "e \<le> 0") auto
  show e1: "e < 1" using r assms e0 by (cases "1 \<le> e") auto
  show n0: "0 \<le> n" using r assms e0 e1 by (cases "n < 0") auto
  from r e0 e1 n0 obtain c' K where "NoLossTokenizer e n = Some (Inr c')" "built e n K c'" by blast
  with assms show "\<exists>K. built e n K c" by auto
qed




lemma built_K_unique:
  assumes "built e n K c" "0 < e" "1 \<le> k" "rung e k < 1" "1 \<le> rung e (k + 1)"
  shows "K = k"
proof -
  from assms(1) have K: "1 \<le> K" "rung e K < 1" "1 \<le> rung e (K + 1)" by (simp_all add: built_def)
  show ?thesis
  proof (cases K k rule: linorder_cases)
    case less
    then have "rung e (K + 1) \<le> rung e k" using K(1) assms(2) by (intro rung_mono) auto
    with K(3) assms(4) show ?thesis by simp
  next
    case greater
    then have "rung e (k + 1) \<le> rung e K" using assms(2,3) by (intro rung_mono) auto
    with K(2) assms(5) show ?thesis by simp
  qed simp
qed

lemma built_tables:
  assumes "built e n K c"
  shows "1 \<le> k \<Longrightarrow> k \<le> K \<Longrightarrow> dt_to_token c (rung e k) = Some (time_token k)"
    and "1 \<le> k \<Longrightarrow> k \<le> K \<Longrightarrow> token_to_dt c (time_token k) = Some (rung e k)"
    and "max_time_value c = rung e K" and "eps c = e"
proof -
  from assms have l: "ladder e K (map time_token [1..K], token_to_dt c, dt_to_token c)"
    by (simp add: built_def)
  show "1 \<le> k \<Longrightarrow> k \<le> K \<Longrightarrow> dt_to_token c (rung e k) = Some (time_token k)"
    unfolding ladder_fields(3)[OF l] by blast
  show "1 \<le> k \<Longrightarrow> k \<le> K \<Longrightarrow> token_to_dt c (time_token k) = Some (rung e k)"
    unfolding ladder_fields(2)[OF l] by blast
  show "max_time_value c = rung e K" "eps c = e" using assms by (simp_all add: built_def)
qed

lemma codec_8_4: "\<exists>c. NoLossTokenizer (1/8) 4 = Some (Inr c) \<and> built (1/8) 4 3 c"
proof -
  obtain c K where c: "NoLossTokenizer (1/8) 4 = Some (Inr c)" "built (1/8) 4 K c"
    using NoLossTokenizer_result[of "1/8" 4] by auto
  have "K = 3" by (rule built_K_unique[OF c(2)]) (simp_all add: rung_def)
  with c show ?thesis by auto
qed

lemma tokens_8_4:
  assumes "built (1/8) 4 3 c"
  shows "dt_to_token c (1/2) = Some ''3T''" "dt_to_token c (1/4) = Some ''2T''" "dt_to_token c (1/8) = Some ''1T''"
    "token_to_dt c ''3T'' = Some (1/2)" "token_to_dt c ''2T'' = Some (1/4)" "token_to_dt c ''1T'' = Some (1/8)"
    "max_time_value c = 1/2" "eps c = 1/8"
  using built_tables(1)[OF assms, of 3] built_tables(1)[OF assms, of 2] built_tables(1)[OF assms, of 1]
    built_tables(2)[OF assms, of 3] built_tables(2)[OF assms, of 2] built_tables(2)[OF assms, of 1]
    built_tables(3,4)[OF assms]
  by (simp_all add: rung_def time_token_def str_int_def str_nat.simps)



section \<open>Facts about the velocity bins\<close>




lemma trunc_nonneg: "0 \<le> x \<Longrightarrow> trunc x = \<lfloor>x\<rfloor>"
  by (simp add: trunc_def)


lemma linspace_last_div: "2 \<le> n \<Longrightarrow> (127 * n - 127) div (n - 1) = (127::int)"
proof -
  assume "2 \<le> n"
  then have "n - 1 \<noteq> 0" by simp
  then have "(127 * (n - 1)) div (n - 1) = 127" by (rule nonzero_mult_div_cancel_right)
  then show ?thesis by (simp add: algebra_simps)
qed


lemma linspace_edge:
  assumes "2 \<le> n" "0 \<le> i" "i \<le> n - 1"
  shows "(if i = n - 1 then 127 else trunc (real_of_int i * (127 / real_of_int (n - 1)))) = (127 * i) div (n - 1)"
proof (cases "i = n - 1")
  case True
  with linspace_last_div[OF assms(1)] show ?thesis by simp
next
  case False
  have nn: "0 \<le> real_of_int i * (127 / real_of_int (n - 1))" using assms by simp
  have eq: "real_of_int i * (127 / real_of_int (n - 1)) = real_of_int (127 * i) / real_of_int (n - 1)" by simp
  have "trunc (real_of_int i * (127 / real_of_int (n - 1))) = \<lfloor>real_of_int i * (127 / real_of_int (n - 1))\<rfloor>"
    using nn by (rule trunc_nonneg)
  also have "\<dots> = \<lfloor>real_of_int (127 * i) / real_of_int (n - 1)\<rfloor>" by (simp only: eq)
  also have "\<dots> = (127 * i) div (n - 1)" by (rule floor_divide_of_int_eq)
  finally show ?thesis using False by simp
qed



lemma linspace_values:
  assumes "2 \<le> n"
  shows "linspace_0_127 n = Inr (map (\<lambda>i. (127 * i) div (n - 1)) [0..n - 1])"
proof -
  have "map (\<lambda>i. if i = n - 1 then 127 else trunc (real_of_int i * (127 / real_of_int (n - 1)))) [0..n - 1]
      = map (\<lambda>i. (127 * i) div (n - 1)) [0..n - 1]"
    by (rule map_cong[OF refl]) (use assms in \<open>simp add: linspace_edge\<close>)
  with assms show ?thesis by (simp add: linspace_0_127_def)
qed

lemma linspace_length: "linspace_0_127 n = Inr edges \<Longrightarrow> length edges = nat n"
  by (auto simp: linspace_0_127_def split: if_splits)

lemma linspace_nth:
  assumes "2 \<le> n" "linspace_0_127 n = Inr edges" "i < nat n"
  shows "edges ! i = (127 * int i) div (n - 1)"
proof -
  from assms(1,2) have "edges = map (\<lambda>i. (127 * i) div (n - 1)) [0..n - 1]" by (simp add: linspace_values)
  with assms(3) show ?thesis by simp
qed

lemma linspace_sorted:
  assumes "linspace_0_127 n = Inr edges"
  shows "sorted edges"
proof (cases "2 \<le> n")
  case True
  have "sorted edges"
    unfolding sorted_iff_nth_mono
  proof (intro allI impI)
    fix i j assume ij: "i \<le> j" "j < length edges"
    then have "i < nat n" "j < nat n" using linspace_length[OF assms] by auto
    then have "edges ! i = (127 * int i) div (n - 1)" "edges ! j = (127 * int j) div (n - 1)"
      using linspace_nth[OF True assms] by auto
    moreover have "(127 * int i) div (n - 1) \<le> (127 * int j) div (n - 1)"
      using ij(1) True by (intro zdiv_mono1) auto
    ultimately show "edges ! i \<le> edges ! j" by simp
  qed
  then show ?thesis .
next
  case False
  then have "n < 0 \<or> n = 0 \<or> n = 1" by auto
  with assms show ?thesis by (auto simp: linspace_0_127_def)
qed



lemma built_velocity:
  assumes "built e n K c"
  shows "linspace_0_127 n = Inr (velocity_bin_edges c)"
    and "length (velocity_bin_edges c) = nat n"
    and "sorted (velocity_bin_edges c)"
    and "length (bin_to_velocity c) = nat n - 1"
    and "i < nat n - 1 \<Longrightarrow> bin_to_velocity c ! i
           = trunc (real_of_int (velocity_bin_edges c ! i + velocity_bin_edges c ! (i + 1)) / 2)"
proof -
  show l: "linspace_0_127 n = Inr (velocity_bin_edges c)" using assms by (simp add: built_def)
  show len: "length (velocity_bin_edges c) = nat n" by (rule linspace_length[OF l])
  show "sorted (velocity_bin_edges c)" by (rule linspace_sorted[OF l])
  have bv: "bin_to_velocity c =
            map (\<lambda>it. trunc (real_of_int (velocity_bin_edges c ! (it - 1) + velocity_bin_edges c ! it) / 2))
                [1..<length (velocity_bin_edges c)]" using assms by (simp add: built_def)
  show "length (bin_to_velocity c) = nat n - 1" by (subst bv) (simp add: len)
  show "bin_to_velocity c ! i
           = trunc (real_of_int (velocity_bin_edges c ! i + velocity_bin_edges c ! (i + 1)) / 2)"
    if "i < nat n - 1"
    using that by (subst bv) (simp add: len)
qed




section \<open>Facts about the events and the encoder\<close>

lemma notes_to_events_quantized:
  "notes_to_events (quantize_frame c notes) = Inr (sort_key time (off_events c notes @ on_events c notes))"
proof -
  have z: "zip rs (map f rs) = map (\<lambda>r. (r, f r)) rs" for rs :: "note_row list" and f :: "note_row \<Rightarrow> int"
    by (induction rs) auto
  show ?thesis
    by (simp add: notes_to_events_def quantize_frame_def on_events_def off_events_def z o_def)
qed

lemma insort_key_sorted_wrt:
  assumes "\<And>a b. f a \<noteq> f b \<Longrightarrow> R a b"
  shows "sorted_wrt R ys \<Longrightarrow> \<forall>y \<in> set ys. R x y \<Longrightarrow> sorted_wrt R (insort_key f x ys)"
proof (induction ys)
  case Nil
  show ?case by simp
next
  case (Cons y ys)
  show ?case
  proof (cases "f x \<le> f y")
    case True
    with Cons.prems show ?thesis by simp
  next
    case False
    then have "R y x" using assms[of y x] by auto
    moreover have "sorted_wrt R (insort_key f x ys)" using Cons by simp
    moreover have "\<forall>z \<in> set ys. R y z" using Cons.prems(1) by simp
    ultimately show ?thesis using False by (simp add: set_insort_key)
  qed
qed

lemma sort_key_sorted_wrt:
  assumes "\<And>a b. f a \<noteq> f b \<Longrightarrow> R a b"
  shows "sorted_wrt R xs \<Longrightarrow> sorted_wrt R (sort_key f xs)"
proof (induction xs)
  case Nil
  show ?case by simp
next
  case (Cons x xs)
  have 1: "sorted_wrt R (sort_key f xs)" using Cons by simp
  have 2: "\<forall>y \<in> set (sort_key f xs). R x y" using Cons.prems by simp
  have "sorted_wrt R (insort_key f x (sort_key f xs))"
    using assms 1 2 by (rule insort_key_sorted_wrt[where f = f and R = R])
  then show ?case by simp
qed

lemma event_kinds:
  "ev \<in> set (on_events c notes) \<Longrightarrow> event ev = ''NOTE_ON''"
  "ev \<in> set (off_events c notes) \<Longrightarrow> event ev = ''NOTE_OFF''"
  by (auto simp: on_events_def off_events_def note_on_event_def note_off_event_def)

lemma off_before_on:
  assumes "evs = sort_key time (off_events c notes @ on_events c notes)"
    "i < length evs" "j < length evs" "time (evs ! i) = time (evs ! j)"
    "event (evs ! i) = ''NOTE_OFF''" "event (evs ! j) = ''NOTE_ON''"
  shows "i < j"
proof -
  let ?R = "\<lambda>a b. time a = time b \<longrightarrow> \<not> (event a = ''NOTE_ON'' \<and> event b = ''NOTE_OFF'')"
  have "sorted_wrt ?R (off_events c notes @ on_events c notes)"
    unfolding sorted_wrt_append
  proof (intro conjI ballI)
    show "sorted_wrt ?R (off_events c notes)"
      by (rule sorted_wrt_mono_rel[of _ "\<lambda>a b. True"]) (auto dest: event_kinds)
    show "sorted_wrt ?R (on_events c notes)"
      by (rule sorted_wrt_mono_rel[of _ "\<lambda>a b. True"]) (auto dest: event_kinds)
  next
    fix a b assume "a \<in> set (off_events c notes)" "b \<in> set (on_events c notes)"
    then show "?R a b" by (auto dest: event_kinds)
  qed
  then have "sorted_wrt ?R evs" unfolding assms(1) by (rule sort_key_sorted_wrt[rotated]) simp
  then have R: "\<And>a b. a < b \<Longrightarrow> b < length evs \<Longrightarrow> ?R (evs ! a) (evs ! b)"
    by (simp add: sorted_wrt_iff_nth_less)
  show ?thesis
  proof (rule ccontr)
    assume "\<not> i < j"
    moreover have "i \<noteq> j" using assms(5,6) by auto
    ultimately have "j < i" by simp
    from R[OF this assms(2)] assms(4,5,6) show False by simp
  qed
qed

lemma built_dicts:
  assumes "built e n K c"
  shows "velocity_bin_to_token c b = (if 0 \<le> b \<and> b < n then Some (velocity_token b) else None)"
    and "pitch_to_on_token c p = (if 21 \<le> p \<and> p \<le> 108 then Some (note_on_token p) else None)"
    and "pitch_to_off_token c p = (if 21 \<le> p \<and> p \<le> 108 then Some (note_off_token p) else None)"
    and "token_to_pitch c s = Some p \<longleftrightarrow> 21 \<le> p \<and> p \<le> 108 \<and> (s = note_on_token p \<or> s = note_off_token p)"
    and "token_to_velocity_bin c s = Some b \<longleftrightarrow> 0 \<le> b \<and> b < n \<and> s = velocity_token b"
  using assms by (simp_all add: built_def)

lemma tokenize_events_blocks:
  assumes "built e n K c"
  shows "tokenize_events c evs acc prev = Some (Inr toks) \<Longrightarrow>
     \<exists>tts. length tts = length evs
       \<and> toks = acc @ concat (map2 (\<lambda>ev tt. tt @ event_tokens ev) evs tts)
       \<and> list_all2 (\<lambda>dt tt. tokenize_time_distance c dt = Some (Inr tt)) (gaps prev evs) tts
       \<and> (\<forall>ev \<in> set evs. 0 \<le> ev_velocity_bin ev \<and> ev_velocity_bin ev < n
                          \<and> 21 \<le> ev_pitch ev \<and> ev_pitch ev \<le> 108)"
proof (induction evs arbitrary: acc prev)
  case Nil
  then show ?case by simp
next
  case (Cons ev evs)
  note d = built_dicts(1,2,3)[OF assms]
  from Cons.prems obtain tt where tt: "tokenize_time_distance c (time ev - prev) = Some (Inr tt)"
    by (auto split: option.splits sum.splits)
  have vb: "0 \<le> ev_velocity_bin ev \<and> ev_velocity_bin ev < n"
    using Cons.prems tt by (auto simp: d and_then_def dict_get_def split: if_splits)
  have pr: "21 \<le> ev_pitch ev \<and> ev_pitch ev \<le> 108"
    using Cons.prems tt vb by (auto simp: d and_then_def dict_get_def split: if_splits)
  have rest: "tokenize_events c evs (acc @ tt @ event_tokens ev) (time ev) = Some (Inr toks)"
    using Cons.prems tt vb pr by (auto simp: d and_then_def dict_get_def event_tokens_def)
  from Cons.IH[OF rest] obtain tts where tts: "length tts = length evs"
    "toks = (acc @ tt @ event_tokens ev) @ concat (map2 (\<lambda>ev tt. tt @ event_tokens ev) evs tts)"
    "list_all2 (\<lambda>dt tt. tokenize_time_distance c dt = Some (Inr tt)) (gaps (time ev) evs) tts"
    "\<forall>ev \<in> set evs. 0 \<le> ev_velocity_bin ev \<and> ev_velocity_bin ev < n \<and> 21 \<le> ev_pitch ev \<and> ev_pitch ev \<le> 108"
    by blast
  show ?case
    using tts tt vb pr by (intro exI[of _ "tt # tts"]) simp
qed

lemma token_strings:
  "velocity_token 0 = ''VELOCITY_0''" "velocity_token 1 = ''VELOCITY_1''"
  "velocity_token 2 = ''VELOCITY_2''" "velocity_token 3 = ''VELOCITY_3''"
  "note_on_token 60 = ''NOTE_ON_60''" "note_off_token 60 = ''NOTE_OFF_60''"
  "note_on_token 64 = ''NOTE_ON_64''" "note_off_token 64 = ''NOTE_OFF_64''"
  "time_token 1 = ''1T''" "time_token 2 = ''2T''" "time_token 3 = ''3T''"
  by (simp_all add: velocity_token_def note_on_token_def note_off_token_def time_token_def
        str_int_def str_nat.simps)

lemma edges_8_4:
  assumes "built (1/8) 4 3 c"
  shows "velocity_bin_edges c = [0, 42, 84, 127]" "bin_to_velocity c = [21, 63, 105]"
proof -
  have "linspace_0_127 4 = Inr (velocity_bin_edges c)" by (rule built_velocity(1)[OF assms])
  then show e: "velocity_bin_edges c = [0, 42, 84, 127]"
    by (simp add: linspace_values upto.simps)
  have "[Suc 0..<4] = [1, 2, 3]" by (simp add: upt_rec)
  then show "bin_to_velocity c = [21, 63, 105]"
    using assms by (simp add: built_def e trunc_def)
qed

lemma time_distance_8_4:
  assumes "built (1/8) 4 3 c"
  shows "tokenize_time_distance c 0 = Some (Inr [])"
    and "tokenize_time_distance c (1/2) = Some (Inr [''3T''])"
  by (simp_all add: tokenize_time_distance_def time_distance_loop.simps tokens_8_4[OF assms])

lemma two_notes_events:
  assumes "built (1/8) 4 3 c"
  shows "sort_key time (off_events c two_notes @ on_events c two_notes) =
     [\<lparr>time = 0, ev_pitch = 60, ev_velocity_bin = 2, event = ''NOTE_ON''\<rparr>,
      \<lparr>time = 1/2, ev_pitch = 60, ev_velocity_bin = 2, event = ''NOTE_OFF''\<rparr>,
      \<lparr>time = 1/2, ev_pitch = 64, ev_velocity_bin = 1, event = ''NOTE_ON''\<rparr>,
      \<lparr>time = 1, ev_pitch = 64, ev_velocity_bin = 1, event = ''NOTE_OFF''\<rparr>]"
  by (simp add: off_events_def on_events_def two_notes_def note_on_event_def note_off_event_def
        velocity_to_bin_def digitize_def edges_8_4[OF assms])

lemma two_notes_tokenize:
  assumes "built (1/8) 4 3 c"
  shows "fst (tokenize c two_notes) = Some (Inr two_notes_tokens)"
  by (simp add: tokenize_def Let_def notes_to_events_quantized two_notes_events[OF assms]
        time_distance_8_4[OF assms] built_dicts[OF assms] and_then_def dict_get_def
        token_strings two_notes_tokens_def)

section \<open>Facts about the repair\<close>

lemma built_vocab_cases:
  assumes "built e n K c" "s \<in> set (vocab c)"
  obtains "s = ''<CLS>''"
  | p where "21 \<le> p" "p \<le> 108" "s = note_on_token p"
  | p where "21 \<le> p" "p \<le> 108" "s = note_off_token p"
  | b where "0 \<le> b" "b < n" "s = velocity_token b"
  | k where "1 \<le> k" "k \<le> K" "s = time_token k"
proof -
  from assms(1) have v: "vocab c = ''<CLS>'' # concat (map (\<lambda>p. [note_on_token p, note_off_token p]) [21..108])
                    @ map velocity_token [0..n - 1] @ map time_token [1..K]" by (simp add: built_def)
  from assms(2) have "s = ''<CLS>'' \<or> (\<exists>p \<in> set [21..108]. s = note_on_token p \<or> s = note_off_token p)
      \<or> (\<exists>b \<in> set [0..n - 1]. s = velocity_token b) \<or> (\<exists>k \<in> set [1..K]. s = time_token k)"
    unfolding v by (auto simp del: upto_rec_numeral)
  then show ?thesis using that by (auto simp del: upto_rec_numeral)
qed

lemma index_of_pitch:
  "length pr = 110 \<Longrightarrow> 21 \<le> p \<Longrightarrow> p \<le> 108 \<Longrightarrow> index_of pr p = Inr (nat p)"
  by (simp add: index_of_def Let_def)

lemma fix_step_other:
  assumes "built e n K c"
  shows "fix_step c ''<CLS>'' st = Inr st" "fix_step c (time_token k) st = Inr st"
  by (simp_all add: fix_step_def fix_velocity_def fix_note_on_def fix_note_off_def and_then_def)

lemma fix_step_velocity:
  "fix_step c (velocity_token b) st = Inr (st\<lparr>current_velocity_token := velocity_token b\<rparr>)"
  by (simp add: fix_step_def fix_velocity_def fix_note_on_def fix_note_off_def and_then_def)

lemma fix_step_on:
  assumes "built e n K c" "21 \<le> p" "p \<le> 108" "length (pressed st) = 110"
    "current_velocity_token st = velocity_token b" "0 \<le> b" "b < n"
  shows "fix_step c (note_on_token p) st = Inr (st\<lparr>pressed := (pressed st)[nat p := b]\<rparr>)"
proof -
  have 1: "token_to_velocity_bin c (velocity_token b) = Some b"
    using built_dicts(5)[OF assms(1), of "velocity_token b" b] assms(6,7) by simp
  have 2: "token_to_pitch c (note_on_token p) = Some p"
    using built_dicts(4)[OF assms(1), of "note_on_token p" p] assms(2,3) by simp
  show ?thesis
    using assms(2-5) 1 2
    by (simp add: fix_step_def fix_velocity_def fix_note_on_def fix_note_off_def and_then_def
          dict_get_def index_of_pitch)
qed

lemma fix_step_off:
  assumes "built e n K c" "21 \<le> p" "p \<le> 108" "length (pressed st) = 110"
  shows "fix_step c (note_off_token p) st
     = Inr (st\<lparr>tokens_out := (if pressed st ! nat p = - 1
                                then [current_velocity_token st, note_on_token p] @ tokens_out st
                                else tokens_out st),
               pressed := (pressed st)[nat p := - 1]\<rparr>)"
proof -
  have 2: "token_to_pitch c (note_off_token p) = Some p"
    using built_dicts(4)[OF assms(1), of "note_off_token p" p] assms(2,3) by simp
  show ?thesis
    using assms(2-4) 2 built_dicts(2)[OF assms(1), of p]
    by (simp add: fix_step_def fix_velocity_def fix_note_on_def fix_note_off_def and_then_def
          dict_get_def index_of_pitch)
qed

lemma fix_inv_simps:
  "fix_inv n (st\<lparr>tokens_out := ys\<rparr>) = fix_inv n st"
  by (simp add: fix_inv_def)

lemma fix_inv_press:
  assumes "fix_inv n st" "21 \<le> p" "p \<le> 108" "- 1 \<le> b" "b < n"
  shows "fix_inv n (st\<lparr>pressed := (pressed st)[nat p := b]\<rparr>)"
proof -
  from assms(1) have l: "length (pressed st) = 110"
    and e: "\<And>i. i < 110 \<Longrightarrow> - 1 \<le> pressed st ! i \<and> pressed st ! i < n
                    \<and> (pressed st ! i \<noteq> - 1 \<longrightarrow> 21 \<le> i \<and> i \<le> 108)"
    and v: "\<exists>b. 0 \<le> b \<and> b < n \<and> current_velocity_token st = velocity_token b"
    by (simp_all add: fix_inv_def)
  have "- 1 \<le> (pressed st)[nat p := b] ! i \<and> (pressed st)[nat p := b] ! i < n
          \<and> ((pressed st)[nat p := b] ! i \<noteq> - 1 \<longrightarrow> 21 \<le> i \<and> i \<le> 108)" if "i < 110" for i
  proof (cases "i = nat p")
    case True
    have "21 \<le> nat p" "nat p \<le> 108" using assms(2,3) by linarith+
    with True assms(4,5) l that show ?thesis by simp
  next
    case False
    with e[OF that] show ?thesis by simp
  qed
  with l v show ?thesis by (simp add: fix_inv_def)
qed

lemma nat_pitch_eq: "21 \<le> p \<Longrightarrow> 21 \<le> q \<Longrightarrow> nat p = nat q \<longleftrightarrow> p = (q::int)"
  by auto

lemma fix_step_effect:
  assumes "built e n K c" "x \<in> set (vocab c)" "fix_inv n st"
  shows "\<exists>pr cv P. scan_effect n (pressed st) (current_velocity_token st) [x] pr cv P
           \<and> (\<forall>ys. fix_step c x (st\<lparr>tokens_out := ys\<rparr>)
                     = Inr \<lparr>pressed = pr, current_velocity_token = cv, tokens_out = P @ ys\<rparr>)"
proof -
  from assms(3) have l: "length (pressed st) = 110"
    and vv: "\<exists>b. 0 \<le> b \<and> b < n \<and> current_velocity_token st = velocity_token b"
    by (simp_all add: fix_inv_def)
  from vv obtain b0 where b0: "0 \<le> b0" "b0 < n" "current_velocity_token st = velocity_token b0" by blast
  have inv0: "fix_inv n \<lparr>pressed = pressed st, current_velocity_token = current_velocity_token st, tokens_out = []\<rparr>"
    using assms(3) by (simp add: fix_inv_def)
  have same: "scan_effect n (pressed st) (current_velocity_token st) [x] (pressed st) (current_velocity_token st) []"
    if "\<And>p. x \<noteq> note_on_token p" "\<And>p. x \<noteq> note_off_token p"
    using that inv0 by (simp add: scan_effect_def)
  from assms(1,2) show ?thesis
  proof (cases rule: built_vocab_cases)
    case 1
    have "fix_step c x (st\<lparr>tokens_out := ys\<rparr>)
        = Inr \<lparr>pressed = pressed st, current_velocity_token = current_velocity_token st, tokens_out = [] @ ys\<rparr>" for ys
      unfolding 1 fix_step_other(1)[OF assms(1)] by simp
    moreover have "scan_effect n (pressed st) (current_velocity_token st) [x] (pressed st) (current_velocity_token st) []"
      by (rule same) (simp_all add: 1)
    ultimately show ?thesis by blast
  next
    case (5 k)
    have "fix_step c x (st\<lparr>tokens_out := ys\<rparr>)
        = Inr \<lparr>pressed = pressed st, current_velocity_token = current_velocity_token st, tokens_out = [] @ ys\<rparr>" for ys
      unfolding 5 fix_step_other(2)[OF assms(1)] by simp
    moreover have "scan_effect n (pressed st) (current_velocity_token st) [x] (pressed st) (current_velocity_token st) []"
      by (rule same) (simp_all add: 5)
    ultimately show ?thesis by blast
  next
    case (4 b)
    have "fix_step c x (st\<lparr>tokens_out := ys\<rparr>)
        = Inr \<lparr>pressed = pressed st, current_velocity_token = velocity_token b, tokens_out = [] @ ys\<rparr>" for ys
      unfolding 4 fix_step_velocity by simp
    moreover have "scan_effect n (pressed st) (current_velocity_token st) [x] (pressed st) (velocity_token b) []"
      using assms(3) 4 by (auto simp: scan_effect_def fix_inv_def)
    ultimately show ?thesis by blast
  next
    case (2 q)
    let ?pr = "(pressed st)[nat q := b0]"
    have "fix_step c x (st\<lparr>tokens_out := ys\<rparr>)
        = Inr \<lparr>pressed = ?pr, current_velocity_token = current_velocity_token st, tokens_out = [] @ ys\<rparr>" for ys
      unfolding 2 using fix_step_on[OF assms(1) 2(1,2), of "st\<lparr>tokens_out := ys\<rparr>" b0] l b0 by simp
    moreover have "scan_effect n (pressed st) (current_velocity_token st) [x] ?pr (current_velocity_token st) []"
    proof -
      have "fix_inv n (st\<lparr>pressed := ?pr\<rparr>)" using fix_inv_press[OF assms(3) 2(1,2), of b0] b0 by simp
      then have i: "fix_inv n \<lparr>pressed = ?pr, current_velocity_token = current_velocity_token st, tokens_out = []\<rparr>"
        by (simp add: fix_inv_def)
      have "(?pr ! nat p \<noteq> - 1) = key_down (note_on_token p) (note_off_token p) (pressed st ! nat p \<noteq> - 1) [x]"
        if "21 \<le> p \<and> p \<le> 108" for p
      proof (cases "p = q")
        case True
        with l 2 b0 show ?thesis by simp
      next
        case False
        then have "nat p \<noteq> nat q" using that 2(1) by (simp add: nat_pitch_eq)
        with False show ?thesis by (simp add: 2)
      qed
      with i show ?thesis by (simp add: scan_effect_def 2)
    qed
    ultimately show ?thesis by blast
  next
    case (3 q)
    let ?pr = "(pressed st)[nat q := - 1]"
    let ?P = "if pressed st ! nat q = - 1 then [current_velocity_token st, note_on_token q] else []"
    have "fix_step c x (st\<lparr>tokens_out := ys\<rparr>)
        = Inr \<lparr>pressed = ?pr, current_velocity_token = current_velocity_token st, tokens_out = ?P @ ys\<rparr>" for ys
      unfolding 3 using fix_step_off[OF assms(1) 3(1,2), of "st\<lparr>tokens_out := ys\<rparr>"] l by simp
    moreover have "scan_effect n (pressed st) (current_velocity_token st) [x] ?pr (current_velocity_token st) ?P"
    proof -
      have "fix_inv n (st\<lparr>pressed := ?pr\<rparr>)"
        using fix_inv_press[OF assms(3) 3(1,2), of "- 1"] b0 by simp
      then have i: "fix_inv n \<lparr>pressed = ?pr, current_velocity_token = current_velocity_token st, tokens_out = []\<rparr>"
        by (simp add: fix_inv_def)
      have k: "(?pr ! nat p \<noteq> - 1) = key_down (note_on_token p) (note_off_token p) (pressed st ! nat p \<noteq> - 1) [x]
          \<and> count_list ?P (note_on_token p) = unmatched (note_on_token p) (note_off_token p) (pressed st ! nat p \<noteq> - 1) [x]"
        if "21 \<le> p \<and> p \<le> 108" for p
      proof (cases "p = q")
        case True
        with l 3 b0 show ?thesis by simp
      next
        case False
        then have "nat p \<noteq> nat q" using that 3(1) by (simp add: nat_pitch_eq)
        with False b0 show ?thesis by (simp add: 3)
      qed
      have e: "?P = []" if "\<forall>p. 21 \<le> p \<and> p \<le> 108 \<longrightarrow>
              unmatched (note_on_token p) (note_off_token p) (pressed st ! nat p \<noteq> - 1) [x] = 0"
        using that[rule_format, of q] 3 by (simp split: if_splits)
      have s: "\<forall>y \<in> set ?P. (\<exists>b. 0 \<le> b \<and> b < n \<and> y = velocity_token b)
                          \<or> (\<exists>p. 21 \<le> p \<and> p \<le> 108 \<and> y = note_on_token p)"
        using b0 3(1,2) by auto
      show ?thesis unfolding scan_effect_def using i k e s by (simp add: 3)
    qed
    ultimately show ?thesis by blast
  qed
qed

lemma key_down_append: "key_down a b d (xs @ ys) = key_down a b (key_down a b d xs) ys"
  by (induction xs arbitrary: d) auto

lemma unmatched_append:
  "unmatched a b d (xs @ ys) = unmatched a b d xs + unmatched a b (key_down a b d xs) ys"
  by (induction xs arbitrary: d) auto

lemma key_down_Cons: "key_down a b d (x # xs) = key_down a b (key_down a b d [x]) xs"
  by simp

lemma unmatched_Cons:
  "unmatched a b d (x # xs) = unmatched a b d [x] + unmatched a b (key_down a b d [x]) xs"
  by simp

lemma scan_effect_Cons:
  assumes "scan_effect n pr0 cv0 [x] pr1 cv1 P1" "scan_effect n pr1 cv1 xs pr2 cv2 P2"
  shows "scan_effect n pr0 cv0 (x # xs) pr2 cv2 (P2 @ P1)"
proof -
  let ?on = note_on_token and ?off = note_off_token
  from assms(1) have a:
    "\<And>p. 21 \<le> p \<and> p \<le> 108 \<Longrightarrow> (pr1 ! nat p \<noteq> - 1) = key_down (?on p) (?off p) (pr0 ! nat p \<noteq> - 1) [x]"
    "\<And>p. 21 \<le> p \<and> p \<le> 108 \<Longrightarrow> count_list P1 (?on p) = unmatched (?on p) (?off p) (pr0 ! nat p \<noteq> - 1) [x]"
    "\<forall>y \<in> set P1. (\<exists>b. 0 \<le> b \<and> b < n \<and> y = velocity_token b)
                    \<or> (\<exists>p. 21 \<le> p \<and> p \<le> 108 \<and> y = note_on_token p)"
    "(\<forall>p. 21 \<le> p \<and> p \<le> 108 \<longrightarrow> unmatched (?on p) (?off p) (pr0 ! nat p \<noteq> - 1) [x] = 0) \<Longrightarrow> P1 = []"
    "(\<forall>y \<in> set [x]. \<not> contains ''VELOCITY'' y) \<Longrightarrow> cv1 = cv0"
    unfolding scan_effect_def by blast+
  from assms(2) have b:
    "fix_inv n \<lparr>pressed = pr2, current_velocity_token = cv2, tokens_out = []\<rparr>"
    "\<And>p. 21 \<le> p \<and> p \<le> 108 \<Longrightarrow> (pr2 ! nat p \<noteq> - 1) = key_down (?on p) (?off p) (pr1 ! nat p \<noteq> - 1) xs"
    "\<And>p. 21 \<le> p \<and> p \<le> 108 \<Longrightarrow> count_list P2 (?on p) = unmatched (?on p) (?off p) (pr1 ! nat p \<noteq> - 1) xs"
    "\<forall>y \<in> set P2. (\<exists>b. 0 \<le> b \<and> b < n \<and> y = velocity_token b)
                    \<or> (\<exists>p. 21 \<le> p \<and> p \<le> 108 \<and> y = note_on_token p)"
    "(\<forall>p. 21 \<le> p \<and> p \<le> 108 \<longrightarrow> unmatched (?on p) (?off p) (pr1 ! nat p \<noteq> - 1) xs = 0) \<Longrightarrow> P2 = []"
    "(\<forall>y \<in> set xs. \<not> contains ''VELOCITY'' y) \<Longrightarrow> cv2 = cv1"
    unfolding scan_effect_def by blast+
  have 1: "(pr2 ! nat p \<noteq> - 1) = key_down (?on p) (?off p) (pr0 ! nat p \<noteq> - 1) (x # xs)
         \<and> count_list (P2 @ P1) (?on p) = unmatched (?on p) (?off p) (pr0 ! nat p \<noteq> - 1) (x # xs)"
    if "21 \<le> p \<and> p \<le> 108" for p
    unfolding key_down_Cons[of _ _ _ x xs] unmatched_Cons[of _ _ _ x xs]
    using a(1,2)[OF that] b(2,3)[OF that] by simp
  have 2: "\<forall>y \<in> set (P2 @ P1). (\<exists>b. 0 \<le> b \<and> b < n \<and> y = velocity_token b)
                    \<or> (\<exists>p. 21 \<le> p \<and> p \<le> 108 \<and> y = note_on_token p)"
    using a(3) b(4) by auto
  have 3: "P2 @ P1 = []"
    if h: "\<forall>p. 21 \<le> p \<and> p \<le> 108 \<longrightarrow> unmatched (?on p) (?off p) (pr0 ! nat p \<noteq> - 1) (x # xs) = 0"
  proof -
    have h1: "unmatched (?on p) (?off p) (pr0 ! nat p \<noteq> - 1) [x] = 0
        \<and> unmatched (?on p) (?off p) (pr1 ! nat p \<noteq> - 1) xs = 0" if p: "21 \<le> p \<and> p \<le> 108" for p
      using h[rule_format, OF p] a(1)[OF p] unfolding unmatched_Cons[of _ _ _ x xs] by simp
    have "P1 = []" using h1 by (intro a(4)) blast
    moreover have "P2 = []" using h1 by (intro b(5)) blast
    ultimately show ?thesis by simp
  qed
  have 4: "cv2 = cv0" if "\<forall>y \<in> set (x # xs). \<not> contains ''VELOCITY'' y"
    using that a(5) b(6) by simp
  show ?thesis unfolding scan_effect_def using b(1) 1 2 3 4 by blast
qed

lemma scan_effect_Nil:
  "fix_inv n st \<Longrightarrow> scan_effect n (pressed st) (current_velocity_token st) [] (pressed st) (current_velocity_token st) []"
  by (simp add: scan_effect_def fix_inv_def)

lemma fix_scan_effect:
  assumes "built e n K c"
  shows "set t \<subseteq> set (vocab c) \<Longrightarrow> fix_inv n st \<Longrightarrow>
     \<exists>pr cv P. scan_effect n (pressed st) (current_velocity_token st) t pr cv P
           \<and> (\<forall>ys. fix_scan c t (st\<lparr>tokens_out := ys\<rparr>)
                     = Inr \<lparr>pressed = pr, current_velocity_token = cv, tokens_out = P @ ys\<rparr>)"
proof (induction t arbitrary: st)
  case Nil
  have "fix_scan c [] (st\<lparr>tokens_out := ys\<rparr>)
      = Inr \<lparr>pressed = pressed st, current_velocity_token = current_velocity_token st, tokens_out = [] @ ys\<rparr>" for ys
    by simp
  with scan_effect_Nil[OF Nil(2)] show ?case by blast
next
  case (Cons x xs)
  from Cons.prems have x: "x \<in> set (vocab c)" and xs: "set xs \<subseteq> set (vocab c)" by simp_all
  from fix_step_effect[OF assms x Cons.prems(2)] obtain pr1 cv1 P1 where
    s1: "scan_effect n (pressed st) (current_velocity_token st) [x] pr1 cv1 P1"
    and f1: "\<And>ys. fix_step c x (st\<lparr>tokens_out := ys\<rparr>)
                     = Inr \<lparr>pressed = pr1, current_velocity_token = cv1, tokens_out = P1 @ ys\<rparr>"
    by blast
  let ?st1 = "\<lparr>pressed = pr1, current_velocity_token = cv1, tokens_out = []\<rparr>"
  have inv1: "fix_inv n ?st1" using s1 by (simp add: scan_effect_def)
  from Cons.IH[OF xs inv1] obtain pr2 cv2 P2 where
    s2: "scan_effect n pr1 cv1 xs pr2 cv2 P2"
    and f2: "\<And>ys. fix_scan c xs (?st1\<lparr>tokens_out := ys\<rparr>)
                     = Inr \<lparr>pressed = pr2, current_velocity_token = cv2, tokens_out = P2 @ ys\<rparr>"
    by auto
  have "fix_scan c (x # xs) (st\<lparr>tokens_out := ys\<rparr>)
      = Inr \<lparr>pressed = pr2, current_velocity_token = cv2, tokens_out = (P2 @ P1) @ ys\<rparr>" for ys
    using f1[of ys] f2[of "P1 @ ys"] by (simp add: and_then_def)
  with scan_effect_Cons[OF s1 s2] show ?case by blast
qed

lemma fix_release_result:
  assumes "built e n K c"
  shows "\<forall>(key, state) \<in> set kvs. 0 \<le> state \<longrightarrow> state < n \<and> 21 \<le> int key \<and> int key \<le> 108 \<Longrightarrow>
     fix_release c kvs toks
       = Inr (toks @ concat (map (\<lambda>(key, state). [velocity_token state, note_off_token (int key)])
                               (filter (\<lambda>(key, state). 0 \<le> state) kvs)))"
proof (induction kvs arbitrary: toks)
  case Nil
  show ?case by simp
next
  case (Cons kv kvs)
  obtain key state where kv: "kv = (key, state)" by (cases kv)
  have rest: "\<forall>(key, state) \<in> set kvs. 0 \<le> state \<longrightarrow> state < n \<and> 21 \<le> int key \<and> int key \<le> 108"
    using Cons.prems by simp
  show ?case
  proof (cases "0 \<le> state")
    case True
    with Cons.prems kv have r: "state < n" "21 \<le> int key" "int key \<le> 108" by auto
    show ?thesis
      using True r Cons.IH[OF rest]
      by (simp add: kv built_dicts(1,3)[OF assms] and_then_def dict_get_def)
  next
    case False
    then show ?thesis using Cons.IH[OF rest] by (simp add: kv)
  qed
qed

lemma fix_release_released:
  assumes "built e n K c" "fix_inv n \<lparr>pressed = pr, current_velocity_token = cv, tokens_out = ys\<rparr>"
  shows "fix_release c (enumerate 0 pr) toks = Inr (toks @ released pr)"
proof -
  from assms(2) have l: "length pr = 110"
    and e: "\<And>i. i < 110 \<Longrightarrow> - 1 \<le> pr ! i \<and> pr ! i < n \<and> (pr ! i \<noteq> - 1 \<longrightarrow> 21 \<le> i \<and> i \<le> 108)"
    by (simp_all add: fix_inv_def)
  have "\<forall>(key, state) \<in> set (enumerate 0 pr). 0 \<le> state \<longrightarrow> state < n \<and> 21 \<le> int key \<and> int key \<le> 108"
  proof (clarify)
    fix key state assume m: "(key, state) \<in> set (enumerate 0 pr)" and s: "0 \<le> state"
    from m have "key < 110" "state = pr ! key" using l by (auto simp: in_set_enumerate_eq)
    with e[of key] s show "state < n \<and> 21 \<le> int key \<and> int key \<le> 108" by auto
  qed
  from fix_release_result[OF assms(1) this] show ?thesis by (simp add: released_def)
qed

lemma count_released_aux:
  "count_list (concat (map (\<lambda>(key, state). [velocity_token state, note_off_token (int key)])
                         (filter (\<lambda>(key, state). 0 \<le> state) (enumerate m xs)))) (note_off_token (int j))
   = (if m \<le> j \<and> j < m + length xs \<and> 0 \<le> xs ! (j - m) then 1 else 0)"
proof (induction xs arbitrary: m)
  case Nil
  show ?case by simp
next
  case (Cons x xs)
  show ?case
  proof (cases "j = m")
    case True
    then show ?thesis using Cons.IH[of "Suc m"] by simp
  next
    case False
    then show ?thesis using Cons.IH[of "Suc m"] by (auto simp: Suc_diff_le)
  qed
qed

lemma released_counts:
  assumes "length pr = 110" "21 \<le> p" "p \<le> 108"
  shows "count_list (released pr) (note_off_token p) = (if 0 \<le> pr ! nat p then 1 else 0)"
    and "note_on_token q \<notin> set (released pr)"
proof -
  have "int (nat p) = p" using assms(2) by simp
  with count_released_aux[of 0 pr "nat p"] assms show
    "count_list (released pr) (note_off_token p) = (if 0 \<le> pr ! nat p then 1 else 0)"
    by (simp add: released_def)
  show "note_on_token q \<notin> set (released pr)"
    by (auto simp: released_def)
qed

lemma released_empty: "\<forall>i < length pr. pr ! i < 0 \<Longrightarrow> released pr = []"
proof -
  assume a: "\<forall>i < length pr. pr ! i < 0"
  have "filter (\<lambda>(key, state). 0 \<le> state) (enumerate 0 pr) = []"
    unfolding filter_empty_conv using a by (auto simp: in_set_enumerate_eq)
  then show ?thesis by (simp add: released_def)
qed

lemma fix_inv_init: "1 \<le> n \<Longrightarrow>
  fix_inv n \<lparr>pressed = replicate 110 (- 1), current_velocity_token = ''VELOCITY_0'', tokens_out = ys\<rparr>"
  unfolding fix_inv_def using token_strings(1) by (auto intro!: exI[of _ 0])

lemma fix_structure:
  assumes "built e n K c" "1 \<le> n" "set t \<subseteq> set (vocab c)"
  shows "\<exists>pr cv P. scan_effect n (replicate 110 (- 1)) ''VELOCITY_0'' t pr cv P
      \<and> (\<forall>ys. fix_scan c t \<lparr>pressed = replicate 110 (- 1), current_velocity_token = ''VELOCITY_0'',
                              tokens_out = ys\<rparr>
                = Inr \<lparr>pressed = pr, current_velocity_token = cv, tokens_out = P @ ys\<rparr>)
      \<and> fix_token_sequences c t = Inr (P @ t @ released pr)"
proof -
  let ?init = "\<lparr>pressed = replicate 110 (- 1), current_velocity_token = ''VELOCITY_0'', tokens_out = []\<rparr>"
  from fix_scan_effect[OF assms(1,3) fix_inv_init[OF assms(2), of "[]"]]
  obtain pr cv P where s: "scan_effect n (replicate 110 (- 1)) ''VELOCITY_0'' t pr cv P"
    and f: "\<And>ys. fix_scan c t (?init\<lparr>tokens_out := ys\<rparr>)
                     = Inr \<lparr>pressed = pr, current_velocity_token = cv, tokens_out = P @ ys\<rparr>"
    by auto
  have inv: "fix_inv n \<lparr>pressed = pr, current_velocity_token = cv, tokens_out = []\<rparr>"
    using s by (simp add: scan_effect_def)
  have "fix_token_sequences c t = Inr (P @ t @ released pr)"
    using f[of t] fix_release_released[OF assms(1) inv, of "P @ t"]
    by (simp add: fix_token_sequences_def and_then_def)
  with s f show ?thesis by auto
qed

lemma unmatched_balance:
  "a \<noteq> b \<Longrightarrow>
   count_list t a + unmatched a b d t + (if d then 1 else 0)
     = count_list t b + (if key_down a b d t then 1 else 0) + unmatched b a (\<not> d) t"
proof (induction t arbitrary: d)
  case Nil
  show ?case by simp
next
  case (Cons x xs)
  consider "x = a" | "x = b" | "x \<noteq> a" "x \<noteq> b" by blast
  then show ?case
  proof cases
    case 1
    with Cons.prems Cons.IH[OF Cons.prems, of True] show ?thesis by (cases d) simp_all
  next
    case 2
    with Cons.prems Cons.IH[OF Cons.prems, of False] show ?thesis by (cases d) simp_all
  next
    case 3
    with Cons.prems Cons.IH[OF Cons.prems, of d] show ?thesis by simp
  qed
qed

lemma scan_effect_fields:
  assumes "scan_effect n pr0 cv0 t pr cv P"
  shows "fix_inv n \<lparr>pressed = pr, current_velocity_token = cv, tokens_out = []\<rparr>"
    and "21 \<le> p \<Longrightarrow> p \<le> 108 \<Longrightarrow>
           (pr ! nat p \<noteq> - 1) = key_down (note_on_token p) (note_off_token p) (pr0 ! nat p \<noteq> - 1) t"
    and "21 \<le> p \<Longrightarrow> p \<le> 108 \<Longrightarrow>
           count_list P (note_on_token p) = unmatched (note_on_token p) (note_off_token p) (pr0 ! nat p \<noteq> - 1) t"
    and "x \<in> set P \<Longrightarrow> (\<exists>b. 0 \<le> b \<and> b < n \<and> x = velocity_token b)
                         \<or> (\<exists>p. 21 \<le> p \<and> p \<le> 108 \<and> x = note_on_token p)"
    and "(\<And>p. 21 \<le> p \<Longrightarrow> p \<le> 108 \<Longrightarrow>
              unmatched (note_on_token p) (note_off_token p) (pr0 ! nat p \<noteq> - 1) t = 0) \<Longrightarrow> P = []"
    and "(\<And>x. x \<in> set t \<Longrightarrow> \<not> contains ''VELOCITY'' x) \<Longrightarrow> cv = cv0"
  using assms unfolding scan_effect_def by blast+

lemma init_pressed: "21 \<le> p \<Longrightarrow> p \<le> 108 \<Longrightarrow> (replicate 110 (- 1 :: int) ! nat p \<noteq> - 1) = False"
  by simp

lemma fix_counts:
  assumes "built e n K c" "1 \<le> n" "set t \<subseteq> set (vocab c)" "21 \<le> p" "p \<le> 108"
  shows "\<exists>out. fix_token_sequences c t = Inr out
      \<and> count_list out (note_on_token p)
          = count_list t (note_on_token p) + unmatched (note_on_token p) (note_off_token p) False t
      \<and> count_list out (note_off_token p)
          = count_list t (note_off_token p)
            + (if key_down (note_on_token p) (note_off_token p) False t then 1 else 0)"
proof -
  from fix_structure[OF assms(1-3)] obtain pr cv P where
    s: "scan_effect n (replicate 110 (- 1)) ''VELOCITY_0'' t pr cv P"
    and f: "fix_token_sequences c t = Inr (P @ t @ released pr)" by blast
  note sf = scan_effect_fields[OF s]
  from sf(1) have l: "length pr = 110" and ge: "- 1 \<le> pr ! nat p"
    using assms(4,5) by (simp_all add: fix_inv_def)
  have off0: "count_list P (note_off_token p) = 0"
    unfolding count_list_0_iff using sf(4)[of "note_off_token p"] by auto
  have on0: "count_list (released pr) (note_on_token p) = 0"
    unfolding count_list_0_iff by (rule released_counts(2)[OF l assms(4,5)])
  have down: "(0 \<le> pr ! nat p) = key_down (note_on_token p) (note_off_token p) False t"
    using sf(2)[OF assms(4,5)] ge init_pressed[OF assms(4,5)] by auto
  have 1: "count_list (P @ t @ released pr) (note_on_token p)
          = count_list t (note_on_token p) + unmatched (note_on_token p) (note_off_token p) False t"
    using sf(3)[OF assms(4,5)] on0 init_pressed[OF assms(4,5)] by simp
  have 2: "count_list (P @ t @ released pr) (note_off_token p)
          = count_list t (note_off_token p)
            + (if key_down (note_on_token p) (note_off_token p) False t then 1 else 0)"
    using off0 released_counts(1)[OF l assms(4,5)] down by simp
  from f 1 2 show ?thesis by blast
qed

lemma fix_noop:
  assumes "built e n K c" "1 \<le> n" "set t \<subseteq> set (vocab c)"
    "\<And>p. 21 \<le> p \<Longrightarrow> p \<le> 108 \<Longrightarrow> unmatched (note_on_token p) (note_off_token p) False t = 0"
    "\<And>p. 21 \<le> p \<Longrightarrow> p \<le> 108 \<Longrightarrow> \<not> key_down (note_on_token p) (note_off_token p) False t"
  shows "fix_token_sequences c t = Inr t"
proof -
  from fix_structure[OF assms(1-3)] obtain pr cv P where
    s: "scan_effect n (replicate 110 (- 1)) ''VELOCITY_0'' t pr cv P"
    and f: "fix_token_sequences c t = Inr (P @ t @ released pr)" by blast
  note sf = scan_effect_fields[OF s]
  have P: "P = []" by (rule sf(5)) (use assms(4) in simp)
  from sf(1) have l: "length pr = 110"
    and e: "\<And>i. i < 110 \<Longrightarrow> - 1 \<le> pr ! i \<and> (pr ! i \<noteq> - 1 \<longrightarrow> 21 \<le> i \<and> i \<le> 108)"
    by (simp_all add: fix_inv_def)
  have "pr ! i < 0" if "i < length pr" for i
  proof (cases "pr ! i = - 1")
    case True
    then show ?thesis by simp
  next
    case False
    with e[of i] that l have r: "21 \<le> int i" "int i \<le> 108" by auto
    from sf(2)[OF r] assms(5)[OF r] False init_pressed[OF r] show ?thesis by simp
  qed
  then have "released pr = []" by (intro released_empty) simp
  with f P show ?thesis by simp
qed

lemma vocab_members:
  assumes "built e n K c"
  shows "21 \<le> p \<Longrightarrow> p \<le> 108 \<Longrightarrow> note_on_token p \<in> set (vocab c)"
    and "21 \<le> p \<Longrightarrow> p \<le> 108 \<Longrightarrow> note_off_token p \<in> set (vocab c)"
    and "0 \<le> b \<Longrightarrow> b < n \<Longrightarrow> velocity_token b \<in> set (vocab c)"
    and "1 \<le> k \<Longrightarrow> k \<le> K \<Longrightarrow> time_token k \<in> set (vocab c)"
proof -
  from assms have v: "vocab c = ''<CLS>'' # concat (map (\<lambda>p. [note_on_token p, note_off_token p]) [21..108])
                    @ map velocity_token [0..n - 1] @ map time_token [1..K]" by (simp add: built_def)
  show "21 \<le> p \<Longrightarrow> p \<le> 108 \<Longrightarrow> note_on_token p \<in> set (vocab c)"
    unfolding v by (auto simp del: upto_rec_numeral)
  show "21 \<le> p \<Longrightarrow> p \<le> 108 \<Longrightarrow> note_off_token p \<in> set (vocab c)"
    unfolding v by (auto simp del: upto_rec_numeral)
  show "0 \<le> b \<Longrightarrow> b < n \<Longrightarrow> velocity_token b \<in> set (vocab c)"
    unfolding v by (auto simp del: upto_rec_numeral)
  show "1 \<le> k \<Longrightarrow> k \<le> K \<Longrightarrow> time_token k \<in> set (vocab c)"
    unfolding v by (auto simp del: upto_rec_numeral)
qed

lemma with_codec_eq: "NoLossTokenizer e n = Some (Inr c) \<Longrightarrow> with_codec e n f = Some (f c)"
  by (simp add: with_codec_def)

lemma unmatched_no_b: "b \<notin> set xs \<Longrightarrow> unmatched a b d xs = 0"
  by (induction xs arbitrary: d) auto

lemma key_down_no_b: "b \<notin> set xs \<Longrightarrow> key_down a b d xs = (d \<or> a \<in> set xs)"
  by (induction xs arbitrary: d) auto

lemma unmatched_no_a: "a \<notin> set xs \<Longrightarrow> unmatched a b d xs = count_list xs b - (if d then 1 else 0)"
  by (induction xs arbitrary: d) auto

lemma key_down_no_a: "a \<notin> set xs \<Longrightarrow> key_down a b d xs = (d \<and> b \<notin> set xs)"
  by (induction xs arbitrary: d) auto

lemma key_down_mono: "key_down a b False t \<Longrightarrow> key_down a b d t"
  by (induction t arbitrary: d) (auto split: if_splits)

lemma unmatched_pos: "0 < unmatched a b d t \<Longrightarrow> b \<in> set t"
  by (induction t arbitrary: d) (auto split: if_splits)

lemma key_down_event: "a \<in> set t \<or> b \<in> set t \<Longrightarrow> key_down a b d t = key_down a b d' t"
proof (induction t arbitrary: d d')
  case Nil
  then show ?case by simp
next
  case (Cons x xs)
  show ?case
  proof (cases "x = a \<or> x = b")
    case True
    then show ?thesis by auto
  next
    case False
    with Cons.prems have "a \<in> set xs \<or> b \<in> set xs" by auto
    from Cons.IH[OF this, of d d'] False show ?thesis by simp
  qed
qed

lemma unmatched_le: "unmatched a b True t \<le> unmatched a b False t"
  by (induction t) auto

lemma released_members:
  assumes "fix_inv n \<lparr>pressed = pr, current_velocity_token = cv, tokens_out = ys\<rparr>" "x \<in> set (released pr)"
  shows "(\<exists>b. 0 \<le> b \<and> b < n \<and> x = velocity_token b) \<or> (\<exists>p. 21 \<le> p \<and> p \<le> 108 \<and> x = note_off_token p)"
proof -
  from assms(1) have l: "length pr = 110"
    and e: "\<And>i. i < 110 \<Longrightarrow> - 1 \<le> pr ! i \<and> pr ! i < n \<and> (pr ! i \<noteq> - 1 \<longrightarrow> 21 \<le> i \<and> i \<le> 108)"
    by (simp_all add: fix_inv_def)
  from assms(2) obtain key state where m: "(key, state) \<in> set (enumerate 0 pr)" "0 \<le> state"
    "x = velocity_token state \<or> x = note_off_token (int key)"
    by (auto simp: released_def)
  from m(1) have k: "key < 110" "state = pr ! key" using l by (auto simp: in_set_enumerate_eq)
  with e[of key] m(2) have "state < n" "21 \<le> int key" "int key \<le> 108" by auto
  with m(2,3) show ?thesis by blast
qed

lemma fix_rescan:
  assumes "built e n K c" "1 \<le> n" "set t \<subseteq> set (vocab c)"
  shows "\<exists>out. fix_token_sequences c t = Inr out \<and> set out \<subseteq> set (vocab c)
      \<and> (\<forall>p. 21 \<le> p \<and> p \<le> 108 \<longrightarrow>
            unmatched (note_on_token p) (note_off_token p) False out
              = (if 0 < unmatched (note_on_token p) (note_off_token p) False t
                 then unmatched (note_on_token p) (note_off_token p) True t else 0)
          \<and> \<not> key_down (note_on_token p) (note_off_token p) False out)"
proof -
  from fix_structure[OF assms(1-3)] obtain pr cv P where
    s: "scan_effect n (replicate 110 (- 1)) ''VELOCITY_0'' t pr cv P"
    and f: "fix_token_sequences c t = Inr (P @ t @ released pr)" by blast
  note sf = scan_effect_fields[OF s]
  let ?A = "released pr"
  from sf(1) have l: "length pr = 110" by (simp add: fix_inv_def)
  have Pv: "x \<in> set (vocab c)" if "x \<in> set P" for x
    using sf(4)[OF that] vocab_members(1,3)[OF assms(1)] by auto
  have Av: "x \<in> set (vocab c)" if "x \<in> set ?A" for x
    using released_members[OF sf(1) that] vocab_members(2,3)[OF assms(1)] by auto
  have sub: "set (P @ t @ ?A) \<subseteq> set (vocab c)" using Pv Av assms(3) by auto
  have main: "unmatched (note_on_token p) (note_off_token p) False (P @ t @ ?A)
              = (if 0 < unmatched (note_on_token p) (note_off_token p) False t
                 then unmatched (note_on_token p) (note_off_token p) True t else 0)
          \<and> \<not> key_down (note_on_token p) (note_off_token p) False (P @ t @ ?A)"
    if p: "21 \<le> p \<and> p \<le> 108" for p
  proof -
    let ?a = "note_on_token p" and ?b = "note_off_token p"
    from p have p1: "21 \<le> p" and p2: "p \<le> 108" by simp_all
    have bP: "?b \<notin> set P" using sf(4)[of ?b] by auto
    have aA: "?a \<notin> set ?A" by (rule released_counts(2)[OF l p1 p2])
    have ge: "- 1 \<le> pr ! nat p" using sf(1) p1 p2 by (simp add: fix_inv_def)
    have down: "(0 \<le> pr ! nat p) = key_down ?a ?b False t"
      using sf(2)[OF p1 p2] ge init_pressed[OF p1 p2] by auto
    have cA: "count_list ?A ?b = (if key_down ?a ?b False t then 1 else 0)"
      using released_counts(1)[OF l p1 p2] down by simp
    have cP: "count_list P ?a = unmatched ?a ?b False t"
      using sf(3)[OF p1 p2] init_pressed[OF p1 p2] by simp
    define d1 where "d1 = key_down ?a ?b False P"
    define d2 where "d2 = key_down ?a ?b d1 t"
    have d1: "d1 = (0 < unmatched ?a ?b False t)"
      unfolding d1_def key_down_no_b[OF bP] using cP
      by (metis count_list_0_iff gr0I less_numeral_extra(3))
    have uP: "unmatched ?a ?b False P = 0" by (rule unmatched_no_b[OF bP])
    have ut: "unmatched ?a ?b d1 t = (if 0 < unmatched ?a ?b False t then unmatched ?a ?b True t else 0)"
      using d1 by auto
    have d2: "d2 = key_down ?a ?b False t"
    proof (cases d1)
      case True
      then have "?b \<in> set t" using d1 unmatched_pos by blast
      then show ?thesis unfolding d2_def using key_down_event[of ?a t ?b d1 False] by blast
    next
      case False
      then show ?thesis by (simp add: d2_def)
    qed
    have uA: "unmatched ?a ?b d2 ?A = 0"
      unfolding unmatched_no_a[OF aA] cA d2 by simp
    have kA: "\<not> key_down ?a ?b d2 ?A"
    proof (cases "key_down ?a ?b False t")
      case True
      with cA have "count_list ?A ?b \<noteq> 0" by simp
      then have "?b \<in> set ?A" unfolding count_list_0_iff by simp
      then show ?thesis unfolding key_down_no_a[OF aA] by simp
    next
      case False
      then show ?thesis unfolding key_down_no_a[OF aA] d2 by simp
    qed
    have "unmatched ?a ?b False (P @ t @ ?A) = unmatched ?a ?b d1 t"
      using uP uA by (simp add: unmatched_append key_down_append d1_def d2_def)
    moreover have "key_down ?a ?b False (P @ t @ ?A) = key_down ?a ?b d2 ?A"
      by (simp add: key_down_append d1_def d2_def)
    ultimately show ?thesis using ut kA by simp
  qed
  from f sub main show ?thesis by blast
qed

lemma eval_fix_orphan:
  "with_codec (1/8) 4 (\<lambda>c. fix_token_sequences c [''NOTE_OFF_60'', ''VELOCITY_2'', ''NOTE_OFF_61'', ''NOTE_ON_64''])
   = Some (Inr [''VELOCITY_2'', ''NOTE_ON_61'', ''VELOCITY_0'', ''NOTE_ON_60'',
                ''NOTE_OFF_60'', ''VELOCITY_2'', ''NOTE_OFF_61'', ''NOTE_ON_64'',
                ''VELOCITY_2'', ''NOTE_OFF_64''])"
  by code_simp

lemma eval_fix_twice:
  "with_codec (1/8) 4 (\<lambda>c. (fix_token_sequences c [''NOTE_OFF_60'', ''NOTE_OFF_60''],
                              and_then (fix_token_sequences c [''NOTE_OFF_60'', ''NOTE_OFF_60''])
                                (fix_token_sequences c)))
   = Some (Inr [''VELOCITY_0'', ''NOTE_ON_60'', ''VELOCITY_0'', ''NOTE_ON_60'', ''NOTE_OFF_60'', ''NOTE_OFF_60''],
           Inr [''VELOCITY_0'', ''NOTE_ON_60'', ''VELOCITY_0'', ''NOTE_ON_60'', ''VELOCITY_0'', ''NOTE_ON_60'',
                ''NOTE_OFF_60'', ''NOTE_OFF_60''])"
  by code_simp

lemma eval_fix_repress:
  "with_codec (1/8) 4 (\<lambda>c. fix_token_sequences c [''NOTE_ON_60'', ''NOTE_ON_60'', ''NOTE_OFF_60''])
   = Some (Inr [''NOTE_ON_60'', ''NOTE_ON_60'', ''NOTE_OFF_60''])"
  by code_simp

section \<open>The claims\<close>











text \<open>
  C6. The events of \<^verbatim>\<open>tokenize\<close> are sorted by time; the events of one time are the OFF
  events of that time in the order of the rows, followed by its ON events in the order of
  the rows, so that an OFF event stands before every ON event of the same time; and the
  encoded sequence is the concatenation, in that order, of each event's time symbols,
  velocity symbol and note symbol.
\<close>

theorem tie_break:
  assumes "NoLossTokenizer e n = Some (Inr c)"
  shows "\<exists>evs. notes_to_events (quantize_frame c notes) = Inr evs
      \<and> sorted (map time evs)
      \<and> (\<forall>t. filter (\<lambda>ev. time ev = t) evs
              = filter (\<lambda>ev. time ev = t) (off_events c notes) @ filter (\<lambda>ev. time ev = t) (on_events c notes))
      \<and> (\<forall>i j. i < length evs \<and> j < length evs \<and> time (evs ! i) = time (evs ! j)
               \<and> event (evs ! i) = ''NOTE_OFF'' \<and> event (evs ! j) = ''NOTE_ON'' \<longrightarrow> i < j)
      \<and> (\<forall>toks. fst (tokenize c notes) = Some (Inr toks) \<longrightarrow>
            (\<exists>tts. length tts = length evs
                  \<and> toks = concat (map2 (\<lambda>ev tt. tt @ event_tokens ev) evs tts)))"
proof -
  from NoLossTokenizer_built[OF assms] obtain K where b: "built e n K c" by blast
  let ?evs = "sort_key time (off_events c notes @ on_events c notes)"
  have 1: "notes_to_events (quantize_frame c notes) = Inr ?evs" by (rule notes_to_events_quantized)
  have 2: "sorted (map time ?evs)" by (rule sorted_sort_key)
  have 3: "filter (\<lambda>ev. time ev = t) ?evs
              = filter (\<lambda>ev. time ev = t) (off_events c notes) @ filter (\<lambda>ev. time ev = t) (on_events c notes)" for t
    by (simp add: sort_key_stable)
  have 4: "i < j" if "i < length ?evs \<and> j < length ?evs \<and> time (?evs ! i) = time (?evs ! j)
               \<and> event (?evs ! i) = ''NOTE_OFF'' \<and> event (?evs ! j) = ''NOTE_ON''" for i j
    using that off_before_on[OF refl] by blast
  have 5: "\<exists>tts. length tts = length ?evs \<and> toks = concat (map2 (\<lambda>ev tt. tt @ event_tokens ev) ?evs tts)"
    if "fst (tokenize c notes) = Some (Inr toks)" for toks
  proof -
    from that have "tokenize_events c ?evs [] 0 = Some (Inr toks)"
      by (simp add: tokenize_def Let_def 1)
    from tokenize_events_blocks[OF b this] show ?thesis by auto
  qed
  from 1 2 3 4 5 show ?thesis by blast
qed

theorem tie_break_witness:
  "\<exists>c. NoLossTokenizer (1/8) 4 = Some (Inr c)
     \<and> fst (tokenize c two_notes) = Some (Inr two_notes_tokens)
     \<and> (\<exists>evs tts. notes_to_events (quantize_frame c two_notes) = Inr evs
           \<and> map time evs = [0, 1/2, 1/2, 1]
           \<and> map event evs = [''NOTE_ON'', ''NOTE_OFF'', ''NOTE_ON'', ''NOTE_OFF'']
           \<and> map ev_pitch evs = [60, 60, 64, 64]
           \<and> length tts = length evs
           \<and> two_notes_tokens = concat (map2 (\<lambda>ev tt. tt @ event_tokens ev) evs tts))"
proof -
  obtain c where c: "NoLossTokenizer (1/8) 4 = Some (Inr c)" "built (1/8) 4 3 c"
    using codec_8_4 by blast
  note t = two_notes_tokenize[OF c(2)]
  from tie_break[OF c(1), of two_notes] obtain evs where
    evs: "notes_to_events (quantize_frame c two_notes) = Inr evs"
    and toks: "\<forall>toks. fst (tokenize c two_notes) = Some (Inr toks) \<longrightarrow>
            (\<exists>tts. length tts = length evs
                  \<and> toks = concat (map2 (\<lambda>ev tt. tt @ event_tokens ev) evs tts))"
    by blast
  from toks t obtain tts where tts: "length tts = length evs"
    "two_notes_tokens = concat (map2 (\<lambda>ev tt. tt @ event_tokens ev) evs tts)" by blast
  from evs have e: "evs = sort_key time (off_events c two_notes @ on_events c two_notes)"
    by (simp add: notes_to_events_quantized)
  have m: "map time evs = [0, 1/2, 1/2, 1]"
    "map event evs = [''NOTE_ON'', ''NOTE_OFF'', ''NOTE_ON'', ''NOTE_OFF'']"
    "map ev_pitch evs = [60, 60, 64, 64]"
    unfolding e two_notes_events[OF c(2)] by simp_all
  have "\<exists>evs tts. notes_to_events (quantize_frame c two_notes) = Inr evs
           \<and> map time evs = [0, 1/2, 1/2, 1]
           \<and> map event evs = [''NOTE_ON'', ''NOTE_OFF'', ''NOTE_ON'', ''NOTE_OFF'']
           \<and> map ev_pitch evs = [60, 60, 64, 64]
           \<and> length tts = length evs
           \<and> two_notes_tokens = concat (map2 (\<lambda>ev tt. tt @ event_tokens ev) evs tts)"
    by (rule exI[of _ evs], rule exI[of _ tts], intro conjI) (fact evs m tts)+
  with c(1) t show ?thesis by (intro exI[of _ c] conjI)
qed



text \<open>
  C4. After repair, for every pitch of the vocabulary the number of NOTE_ON symbols is the
  number of NOTE_OFF symbols plus the number of NOTE_ON symbols of the input that arrive
  while the pitch is already pressed (a NOTE_ON that follows a NOTE_ON of the pitch with no
  NOTE_OFF of the pitch between them): the counts are equal exactly when the latter is 0.
\<close>

theorem repair_balance:
  assumes "NoLossTokenizer e n = Some (Inr c)" "1 \<le> n" "set t \<subseteq> set (vocab c)" "21 \<le> p" "p \<le> 108"
  shows "\<exists>out. fix_token_sequences c t = Inr out
      \<and> count_list out (note_on_token p)
          = count_list out (note_off_token p) + unmatched (note_off_token p) (note_on_token p) True t"
proof -
  from NoLossTokenizer_built[OF assms(1)] obtain K where b: "built e n K c" by blast
  from fix_counts[OF b assms(2-5)] obtain out where
    o: "fix_token_sequences c t = Inr out"
    "count_list out (note_on_token p)
          = count_list t (note_on_token p) + unmatched (note_on_token p) (note_off_token p) False t"
    "count_list out (note_off_token p)
          = count_list t (note_off_token p)
            + (if key_down (note_on_token p) (note_off_token p) False t then 1 else 0)" by blast
  from unmatched_balance[of "note_on_token p" "note_off_token p" t False] o(2,3)
  have "count_list out (note_on_token p)
          = count_list out (note_off_token p) + unmatched (note_off_token p) (note_on_token p) True t"
    by simp
  with o(1) show ?thesis by blast
qed

end
